theory Spec2Isabelle
  imports Main "HOL-Library.Sublist"
begin

section \<open>The codepoint registry of update_codepoints.py\<close>

text \<open>
  A shallow embedding of \<^verbatim>\<open>src/zmk_locale_generator/update_codepoints.py\<close>.

  A Python \<^verbatim>\<open>str\<close> is a sequence of Unicode code points: \<open>pystr\<close>. A codepoint of the
  registry is a one-character string, compared by Python as its scalar value, so a
  \<open>codepoint\<close> is that scalar value and the string is the singleton list that holds it.
  A \<^verbatim>\<open>CommentedMap\<close> is an ordered dictionary: an association list in key order (a
  dictionary holds every key once). The registry, a \<^verbatim>\<open>CommentedSeq\<close> of such maps, is a
  list of them. The functions of the source mutate the registry in place; here they take
  the registry and return the mutated one, together with the exception that escaped,
  if one did.
\<close>

type_synonym pystr = "nat list"
type_synonym codepoint = nat

datatype py_error = StopIteration | IndexError | KeyError | TypeError | YAMLError

text \<open>A value of the registry: one name, or a list of names.\<close>

datatype name_value = Name pystr | Names "pystr list"

type_synonym CodepointNames = "(codepoint \<times> name_value) list"
type_synonym CodepointNamesRaw = "CodepointNames list"

record UnicodeBlock =
  block_start :: codepoint
  block_end :: codepoint
  block_name :: pystr

text \<open>A string literal of the source, as code points.\<close>

definition lit :: "string \<Rightarrow> pystr" where
  "lit s = map of_char s"

subsection \<open>upper_bound\<close>

text \<open>
  \<^verbatim>\<open>upper_bound(seq, val, gt)\<close>: the index of the first item that \<open>gt\<close> puts above
  \<open>val\<close>, or \<^verbatim>\<open>len(seq)\<close>. The comparator is a Python callable and may raise; the
  exception leaves the loop.
\<close>

fun upper_bound :: "'a list \<Rightarrow> 'b \<Rightarrow> ('a \<Rightarrow> 'b \<Rightarrow> py_error + bool) \<Rightarrow> py_error + nat" where
  "upper_bound [] val gt = Inr 0"
| "upper_bound (x # seq) val gt =
     (case gt x val of
        Inl e \<Rightarrow> Inl e
      | Inr True \<Rightarrow> Inr 0
      | Inr False \<Rightarrow>
          (case upper_bound seq val gt of Inl e \<Rightarrow> Inl e | Inr i \<Rightarrow> Inr (Suc i)))"

text \<open>The default comparator \<^verbatim>\<open>lambda a, b: a > b\<close>.\<close>

definition gt_default :: "'a::ord \<Rightarrow> 'a \<Rightarrow> py_error + bool" where
  "gt_default a b = Inr (a > b)"

text \<open>\<^verbatim>\<open>list.insert(i, x)\<close> and \<^verbatim>\<open>CommentedMap.insert(pos, key, value)\<close> for a new key.\<close>

definition insert_at :: "nat \<Rightarrow> 'a \<Rightarrow> 'a list \<Rightarrow> 'a list" where
  "insert_at i x xs = take i xs @ x # drop i xs"

subsection \<open>codepoint_to_block, first_key, find_block\<close>

definition in_block :: "codepoint \<Rightarrow> UnicodeBlock \<Rightarrow> bool" where
  "in_block c block = (c \<ge> block_start block \<and> c \<le> block_end block)"

text \<open>
  \<^verbatim>\<open>next(block for block in blocks if c >= block.start and c <= block.end)\<close>: the first
  block that holds \<open>c\<close>; \<^verbatim>\<open>next\<close> raises StopIteration when the generator is exhausted.
\<close>

fun codepoint_to_block :: "codepoint \<Rightarrow> UnicodeBlock list \<Rightarrow> py_error + UnicodeBlock" where
  "codepoint_to_block c [] = Inl StopIteration"
| "codepoint_to_block c (block # blocks) =
     (if c \<ge> block_start block \<and> c \<le> block_end block then Inr block
      else codepoint_to_block c blocks)"

text \<open>\<^verbatim>\<open>list(map.keys())[0]\<close> raises IndexError on an empty map.\<close>

definition first_key :: "CodepointNames \<Rightarrow> py_error + codepoint" where
  "first_key m = (case map fst m of [] \<Rightarrow> Inl IndexError | k # _ \<Rightarrow> Inr k)"

text \<open>
  \<^verbatim>\<open>next(b for b in codepoints if block.start <= first_key(b) <= block.end)\<close>, as the
  index of the group it returns. The generator calls \<open>first_key\<close> on every group up to
  the one it returns, and an IndexError of \<open>first_key\<close> leaves it.
\<close>

fun next_group :: "CodepointNamesRaw \<Rightarrow> UnicodeBlock \<Rightarrow> py_error + nat" where
  "next_group [] block = Inl StopIteration"
| "next_group (b # codepoints) block =
     (case first_key b of
        Inl e \<Rightarrow> Inl e
      | Inr k \<Rightarrow>
          (if block_start block \<le> k \<and> k \<le> block_end block then Inr 0
           else (case next_group codepoints block of
                   Inl e \<Rightarrow> Inl e
                 | Inr i \<Rightarrow> Inr (Suc i))))"

definition compare_blocks :: "CodepointNames \<Rightarrow> UnicodeBlock \<Rightarrow> py_error + bool" where
  "compare_blocks a b =
     (case first_key a of Inl e \<Rightarrow> Inl e | Inr k \<Rightarrow> Inr (k > block_end b))"

text \<open>
  \<open>find_block\<close> returns the group itself, which the caller then mutates; here it returns
  the registry (with the new empty group, when it made one) and the index of the group.
  Only StopIteration is caught.
\<close>

definition find_block ::
  "CodepointNamesRaw \<Rightarrow> UnicodeBlock \<Rightarrow> py_error + (CodepointNamesRaw \<times> nat)" where
  "find_block codepoints block =
     (case next_group codepoints block of
        Inr i \<Rightarrow> Inr (codepoints, i)
      | Inl StopIteration \<Rightarrow>
          (case upper_bound codepoints block compare_blocks of
             Inl e \<Rightarrow> Inl e
           | Inr index \<Rightarrow> Inr (insert_at index [] codepoints, index))
      | Inl e \<Rightarrow> Inl e)"

subsection \<open>remove_unused_codepoints\<close>

text \<open>\<^verbatim>\<open>del block[c]\<close>, for a key of the map.\<close>

definition del_key :: "codepoint \<Rightarrow> CodepointNames \<Rightarrow> CodepointNames" where
  "del_key c block = filter (\<lambda>kv. fst kv \<noteq> c) block"

text \<open>The inner loop, over the snapshot \<^verbatim>\<open>list(block.keys())\<close>.\<close>

fun remove_keys :: "codepoint list \<Rightarrow> codepoint list \<Rightarrow> CodepointNames \<Rightarrow> CodepointNames" where
  "remove_keys [] used block = block"
| "remove_keys (c # keys) used block =
     remove_keys keys used (if c \<notin> set used then del_key c block else block)"

definition remove_unused_codepoints ::
  "CodepointNamesRaw \<Rightarrow> codepoint list \<Rightarrow> CodepointNamesRaw" where
  "remove_unused_codepoints codepoints used =
     map (\<lambda>block. remove_keys (map fst block) used block) codepoints"

subsection \<open>add_new_codepoint_placeholders\<close>

text \<open>
  The body of \<^verbatim>\<open>if c not in block: pos = upper_bound(block.keys(), c); block.insert(pos, c, "")\<close>,
  on the group.
\<close>

definition insert_placeholder :: "codepoint \<Rightarrow> CodepointNames \<Rightarrow> py_error + CodepointNames" where
  "insert_placeholder c block =
     (if c \<notin> set (map fst block)
      then (case upper_bound (map fst block) c gt_default of
              Inl e \<Rightarrow> Inl e
            | Inr pos \<Rightarrow> Inr (insert_at pos (c, Name []) block))
      else Inr block)"

text \<open>One round of the loop over \<open>used\<close>: the registry after it, and the exception if one escaped.\<close>

definition add_placeholder ::
  "CodepointNamesRaw \<Rightarrow> UnicodeBlock list \<Rightarrow> codepoint \<Rightarrow> CodepointNamesRaw \<times> py_error option" where
  "add_placeholder codepoints blocks c =
     (case codepoint_to_block c blocks of
        Inl e \<Rightarrow> (codepoints, Some e)
      | Inr b \<Rightarrow>
          (case find_block codepoints b of
             Inl e \<Rightarrow> (codepoints, Some e)
           | Inr (codepoints', i) \<Rightarrow>
               (case insert_placeholder c (codepoints' ! i) of
                  Inl e \<Rightarrow> (codepoints', Some e)
                | Inr block \<Rightarrow> (codepoints'[i := block], None))))"

fun add_new_codepoint_placeholders ::
  "CodepointNamesRaw \<Rightarrow> UnicodeBlock list \<Rightarrow> codepoint list \<Rightarrow> CodepointNamesRaw \<times> py_error option" where
  "add_new_codepoint_placeholders codepoints blocks [] = (codepoints, None)"
| "add_new_codepoint_placeholders codepoints blocks (c # used) =
     (case add_placeholder codepoints blocks c of
        (codepoints', Some e) \<Rightarrow> (codepoints', Some e)
      | (codepoints', None) \<Rightarrow> add_new_codepoint_placeholders codepoints' blocks used)"

text \<open>
  The reconciliation of \<open>update_codepoints\<close>: \<^verbatim>\<open>remove_unused_codepoints(codepoints, used)\<close>
  and then \<^verbatim>\<open>add_new_codepoint_placeholders(codepoints, blocks, used)\<close>.
\<close>

definition reconcile ::
  "CodepointNamesRaw \<Rightarrow> UnicodeBlock list \<Rightarrow> codepoint list \<Rightarrow> CodepointNamesRaw \<times> py_error option" where
  "reconcile codepoints blocks used =
     add_new_codepoint_placeholders (remove_unused_codepoints codepoints used) blocks used"

text \<open>The codepoints present across all groups of a registry.\<close>

definition all_keys :: "CodepointNamesRaw \<Rightarrow> codepoint set" where
  "all_keys codepoints = (\<Union>block \<in> set codepoints. fst ` set block)"

section \<open>The annotation pass\<close>

text \<open>
  What \<open>add_codepoint_comments\<close> takes from outside this file: \<open>is_visible_character\<close>
  of the package's \<^verbatim>\<open>codepoints\<close> module, and of the Python library the Unicode name
  table \<^verbatim>\<open>unicodedata.name\<close> (\<open>None\<close> where it raises ValueError), \<^verbatim>\<open>str.upper\<close> and the
  character class \<^verbatim>\<open>\w\<close>. They are parameters of the model.
\<close>

record unicode_data =
  is_visible_character :: "codepoint \<Rightarrow> bool"
  unicodedata_name :: "codepoint \<Rightarrow> pystr option"
  str_upper :: "pystr \<Rightarrow> pystr"
  is_word :: "nat \<Rightarrow> bool"

text \<open>\<^verbatim>\<open>not item[c]\<close>: the empty string and the empty list are false.\<close>

fun py_not :: "name_value \<Rightarrow> bool" where
  "py_not (Name s) = (s = [])"
| "py_not (Names ns) = (ns = [])"

text \<open>
  \<^verbatim>\<open>re.sub(r"[^\w]+", "_", s)\<close>: from left to right, every maximal run of characters
  outside \<^verbatim>\<open>\w\<close> becomes one underscore (code point 95).
\<close>

function sub_nonword :: "(nat \<Rightarrow> bool) \<Rightarrow> pystr \<Rightarrow> pystr" where
  "sub_nonword w [] = []"
| "sub_nonword w (x # s) =
     (if w x then x # sub_nonword w s
      else 95 # sub_nonword w (dropWhile (\<lambda>y. \<not> w y) s))"
  by pat_completeness auto
termination
  by (relation "measure (\<lambda>(w, s). length s)") (auto simp: less_Suc_eq_le length_dropWhile_le)

text \<open>\<^verbatim>\<open>sep.join(xs)\<close>.\<close>

fun join :: "pystr \<Rightarrow> pystr list \<Rightarrow> pystr" where
  "join sep [] = []"
| "join sep [x] = x"
| "join sep (x # y # ys) = x @ sep @ join sep (y # ys)"

text \<open>
  The generator \<open>get_char_comments(item, c)\<close>, as the list of what it yields; \<^verbatim>\<open>item[c]\<close>
  raises KeyError for a missing key, and the ValueError of \<^verbatim>\<open>unicodedata.name\<close> is caught.
\<close>

definition get_char_comments :: "unicode_data \<Rightarrow> CodepointNames \<Rightarrow> codepoint \<Rightarrow> py_error + pystr list" where
  "get_char_comments ud item c =
     (let first = (if is_visible_character ud c then [c] else lit ''(non-printable)'') in
      case map_of item c of
        None \<Rightarrow> Inl KeyError
      | Some v \<Rightarrow>
          (if py_not v
           then (case unicodedata_name ud c of
                   Some n \<Rightarrow> Inr [first, sub_nonword (is_word ud) (str_upper ud n)]
                 | None \<Rightarrow> Inr [first])
           else Inr [first]))"

text \<open>
  The pass stores its comments in the registry through \<^verbatim>\<open>yaml_add_eol_comment\<close> and
  \<^verbatim>\<open>yaml_set_comment_before_after_key\<close> of ruamel.yaml. The model returns what the pass
  hands to them: for every group, in order, the text before it and, for the keys that get
  one, the end-of-line comment.

  The inner loop \<^verbatim>\<open>for c in item.keys()\<close>: a comment is added when the joined text is
  not empty.
\<close>

fun eol_comments :: "unicode_data \<Rightarrow> CodepointNames \<Rightarrow> codepoint list \<Rightarrow> py_error + (codepoint \<times> pystr) list" where
  "eol_comments ud item [] = Inr []"
| "eol_comments ud item (c # keys) =
     (case get_char_comments ud item c of
        Inl e \<Rightarrow> Inl e
      | Inr fragments \<Rightarrow>
          (case eol_comments ud item keys of
             Inl e \<Rightarrow> Inl e
           | Inr rest \<Rightarrow>
               (if join (lit '' '') fragments \<noteq> []
                then Inr ((c, lit ''# '' @ join (lit '' '') fragments) # rest)
                else Inr rest)))"

type_synonym annotations = "(pystr \<times> (codepoint \<times> pystr) list) list"

fun add_codepoint_comments ::
  "unicode_data \<Rightarrow> CodepointNamesRaw \<Rightarrow> UnicodeBlock list \<Rightarrow> py_error + annotations" where
  "add_codepoint_comments ud [] blocks = Inr []"
| "add_codepoint_comments ud (item # codepoints) blocks =
     (case first_key item of
        Inl e \<Rightarrow> Inl e
      | Inr k \<Rightarrow>
          (case codepoint_to_block k blocks of
             Inl e \<Rightarrow> Inl e
           | Inr block \<Rightarrow>
               (case eol_comments ud item (map fst item) of
                  Inl e \<Rightarrow> Inl e
                | Inr comments \<Rightarrow>
                    (case add_codepoint_comments ud codepoints blocks of
                       Inl e \<Rightarrow> Inl e
                     | Inr rest \<Rightarrow> Inr ((10 # block_name block, comments) # rest)))))"

text \<open>
  What the proofs say about a scan of \<open>next_group\<close>: a group it passed had a first key,
  outside the block; and the index \<open>upper_bound\<close> gives a new group.
\<close>

definition scanned :: "UnicodeBlock \<Rightarrow> CodepointNames \<Rightarrow> bool" where
  "scanned b g = (\<exists>k. first_key g = Inr k \<and> \<not> in_block k b)"

definition new_pos :: "UnicodeBlock \<Rightarrow> CodepointNamesRaw \<Rightarrow> nat" where
  "new_pos b cps = length (takeWhile (\<lambda>h. \<not> fst (hd h) > block_end b) cps)"

definition ins :: "codepoint \<Rightarrow> CodepointNames \<Rightarrow> CodepointNames" where
  "ins c g = (if c \<in> fst ` set g then g
              else insert_at (length (takeWhile (\<lambda>k. \<not> k > c) (map fst g))) (c, Name []) g)"

section \<open>The transform of the serialized text\<close>

text \<open>
  \<^verbatim>\<open>KEY_RE = (?<=^(?:- |  ))((["']?).+\2)(?=:)\<close>. The look-behind holds at offset 2 of a
  line that starts with \<^verbatim>\<open>"- "\<close> or two spaces, and nowhere else, so the pattern matches at
  most once in a line.

  \<^verbatim>\<open>.+\<close> is greedy: it first takes every character up to the end of the line (or to a
  newline, code point 10, which \<^verbatim>\<open>.\<close> does not match) and gives characters back one at a
  time until the rest of the pattern matches. \<open>dot_plus s rest\<close> is the number of characters
  it keeps: the largest \<open>n \<ge> 1\<close> for which \<open>rest\<close> accepts what follows.
\<close>

definition dot_plus :: "pystr \<Rightarrow> (pystr \<Rightarrow> bool) \<Rightarrow> nat option" where
  "dot_plus s rest =
     find (\<lambda>n. rest (drop n s)) (rev [1 ..< Suc (length (takeWhile (\<lambda>x. x \<noteq> 10) s))])"

text \<open>
  The length of group 1, \<^verbatim>\<open>(["']?).+\2\<close> followed by a colon (58), matched at the start
  of \<open>s\<close>. The optional quote (34 or 39) is tried first; when the match fails with it, the
  group \<^verbatim>\<open>(["']?)\<close> is tried empty, and \<^verbatim>\<open>\2\<close> is then empty too.
\<close>

definition key_match :: "pystr \<Rightarrow> nat option" where
  "key_match s =
     (case (case s of
              [] \<Rightarrow> None
            | q # r \<Rightarrow>
                (if q = 34 \<or> q = 39
                 then map_option (\<lambda>n. n + 2) (dot_plus r (\<lambda>t. take 2 t = [q, 58]))
                 else None)) of
        Some n \<Rightarrow> Some n
      | None \<Rightarrow> dot_plus s (\<lambda>t. take 1 t = [58]))"

text \<open>
  What \<^verbatim>\<open>yaml.load\<close> gives for the text of a key: a string, a \<^verbatim>\<open>bytes\<close> object (its bytes
  as numbers), or something else (on which \<^verbatim>\<open>ord\<close> raises TypeError), or an error of the
  parser. The parser is ruamel.yaml's and is a parameter.
\<close>

datatype yaml_value = YStr pystr | YBytes "nat list" | YOther

text \<open>\<^verbatim>\<open>format(n, "04X")\<close>: upper-case hexadecimal, padded with zeros to four digits.\<close>

definition hex_digit :: "nat \<Rightarrow> nat" where
  "hex_digit d = (if d < 10 then 48 + d else 55 + d)"

fun hex :: "nat \<Rightarrow> pystr" where
  "hex n = (if n < 16 then [hex_digit n] else hex (n div 16) @ [hex_digit (n mod 16)])"

declare hex.simps [simp del]

definition format_04X :: "nat \<Rightarrow> pystr" where
  "format_04X n = replicate (4 - length (hex n)) 48 @ hex n"

text \<open>
  \<^verbatim>\<open>escape_key\<close>: \<^verbatim>\<open>ord(c)\<close> takes a string of one character, or a \<^verbatim>\<open>bytes\<close> object of
  length one, and raises TypeError on anything else.
\<close>

definition escape_key :: "(pystr \<Rightarrow> py_error + yaml_value) \<Rightarrow> pystr \<Rightarrow> py_error + pystr" where
  "escape_key yaml_load group1 =
     (case yaml_load group1 of
        Inl e \<Rightarrow> Inl e
      | Inr (YStr [c]) \<Rightarrow> Inr ([34, 92, 117] @ format_04X c @ [34])
      | Inr (YBytes [c]) \<Rightarrow> Inr ([34, 92, 117] @ format_04X c @ [34])
      | Inr _ \<Rightarrow> Inl TypeError)"

text \<open>\<^verbatim>\<open>KEY_RE.sub(escape_key, line)\<close>.\<close>

definition key_sub :: "(pystr \<Rightarrow> py_error + yaml_value) \<Rightarrow> pystr \<Rightarrow> py_error + pystr" where
  "key_sub yaml_load line =
     (if take 2 line = [45, 32] \<or> take 2 line = [32, 32]
      then (case key_match (drop 2 line) of
              None \<Rightarrow> Inr line
            | Some n \<Rightarrow>
                (case escape_key yaml_load (take n (drop 2 line)) of
                   Inl e \<Rightarrow> Inl e
                 | Inr key \<Rightarrow> Inr (take 2 line @ key @ drop (2 + n) line)))
      else Inr line)"

text \<open>
  \<^verbatim>\<open>COMMENT_PAD_RE = " +#"\<close>: one or more spaces (32) and a hash (35). \<open>pad_match s\<close> is
  what follows a match at the start of \<open>s\<close>. \<^verbatim>\<open>COMMENT_PAD_RE.sub(" #", line)\<close> replaces the
  matches from left to right.
\<close>

definition pad_match :: "pystr \<Rightarrow> pystr option" where
  "pad_match s =
     (case s of
        [] \<Rightarrow> None
      | x # r \<Rightarrow>
          (if x = 32
           then (case dropWhile (\<lambda>y. y = 32) r of
                   [] \<Rightarrow> None
                 | h # t \<Rightarrow> if h = 35 then Some t else None)
           else None))"

function comment_pad_sub :: "pystr \<Rightarrow> pystr" where
  "comment_pad_sub [] = []"
| "comment_pad_sub (x # r) =
     (case pad_match (x # r) of
        Some t \<Rightarrow> 32 # 35 # comment_pad_sub t
      | None \<Rightarrow> x # comment_pad_sub r)"
  by pat_completeness auto

termination
proof (relation "measure length")
  show "wf (measure (length :: pystr \<Rightarrow> nat))" by simp
next
  fix x :: nat and r t :: pystr
  assume "pad_match (x # r) = Some t"
  then obtain h where "dropWhile (\<lambda>y. y = 32) r = h # t"
    by (auto simp: pad_match_def split: if_splits list.splits)
  then have "length t < length (dropWhile (\<lambda>y. y = 32) r)" by simp
  also have "\<dots> \<le> length r" by (rule length_dropWhile_le)
  finally show "(t, x # r) \<in> measure length" by simp
next
  fix x :: nat and r :: pystr
  show "(r, x # r) \<in> measure length" by simp
qed

definition transform_line :: "(pystr \<Rightarrow> py_error + yaml_value) \<Rightarrow> pystr \<Rightarrow> py_error + pystr" where
  "transform_line yaml_load line =
     (case key_sub yaml_load line of
        Inl e \<Rightarrow> Inl e
      | Inr line' \<Rightarrow> Inr (comment_pad_sub line'))"

text \<open>
  \<^verbatim>\<open>str.splitlines()\<close>: the line boundaries are \<^verbatim>\<open>\n\<close>, \<^verbatim>\<open>\r\<close>, \<^verbatim>\<open>\r\n\<close>, \<^verbatim>\<open>\v\<close>, \<^verbatim>\<open>\f\<close>,
  \<^verbatim>\<open>\x1c\<close>, \<^verbatim>\<open>\x1d\<close>, \<^verbatim>\<open>\x1e\<close>, \<^verbatim>\<open>\x85\<close>, U+2028 and U+2029; no empty last line.
\<close>

definition is_boundary :: "nat \<Rightarrow> bool" where
  "is_boundary x = (x \<in> {10, 11, 12, 13, 28, 29, 30, 133, 8232, 8233})"

function splitlines :: "pystr \<Rightarrow> pystr list" where
  "splitlines [] = []"
| "splitlines (x # s) =
     (case dropWhile (\<lambda>y. \<not> is_boundary y) (x # s) of
        [] \<Rightarrow> [x # s]
      | b # r \<Rightarrow>
          takeWhile (\<lambda>y. \<not> is_boundary y) (x # s)
            # splitlines (if b = 13 \<and> take 1 r = [10] then drop 1 r else r))"
  by pat_completeness auto

termination
proof (relation "measure length")
  show "wf (measure (length :: pystr \<Rightarrow> nat))" by simp
next
  fix x b :: nat and s r :: pystr
  assume a: "dropWhile (\<lambda>y. \<not> is_boundary y) (x # s) = b # r"
  have "length (dropWhile (\<lambda>y. \<not> is_boundary y) (x # s)) \<le> length (x # s)"
    by (rule length_dropWhile_le)
  with a have "length r < length (x # s)" by simp
  then show "((if b = 13 \<and> take 1 r = [10] then drop 1 r else r), x # s) \<in> measure length"
    by (auto simp: less_imp_diff_less)
qed

text \<open>
  \<^verbatim>\<open>"\n".join(transform_line(line) for line in text.splitlines())\<close>: the lines are
  transformed in order, and the first exception leaves the generator.
\<close>

fun transform_lines :: "(pystr \<Rightarrow> py_error + yaml_value) \<Rightarrow> pystr list \<Rightarrow> py_error + pystr list" where
  "transform_lines yaml_load [] = Inr []"
| "transform_lines yaml_load (line # lines) =
     (case transform_line yaml_load line of
        Inl e \<Rightarrow> Inl e
      | Inr l \<Rightarrow>
          (case transform_lines yaml_load lines of
             Inl e \<Rightarrow> Inl e
           | Inr ls \<Rightarrow> Inr (l # ls)))"

definition transform :: "(pystr \<Rightarrow> py_error + yaml_value) \<Rightarrow> pystr \<Rightarrow> py_error + pystr" where
  "transform yaml_load text =
     (case transform_lines yaml_load (splitlines text) of
        Inl e \<Rightarrow> Inl e
      | Inr ls \<Rightarrow> Inr (join [10] ls))"

section \<open>update_codepoints\<close>

text \<open>
  \<open>update_codepoints\<close> after its reads (the block table, the registry and the used
  codepoints are its arguments here): the reconciliation, the annotation pass, and
  \<^verbatim>\<open>yaml.dump(codepoints, f, transform=transform)\<close> followed by \<^verbatim>\<open>f.write("\n")\<close>. The
  result is the text written. The dump of ruamel.yaml is a parameter: a function of the
  registry and of the comments the annotation pass hands over (the start comment is the
  constant \<^verbatim>\<open>YAML_HEADER\<close>). An exception leaves the function before anything is written.
\<close>

definition update_codepoints ::
  "unicode_data \<Rightarrow> (CodepointNamesRaw \<Rightarrow> annotations \<Rightarrow> pystr) \<Rightarrow> (pystr \<Rightarrow> py_error + yaml_value)
     \<Rightarrow> UnicodeBlock list \<Rightarrow> CodepointNamesRaw \<Rightarrow> codepoint list \<Rightarrow> py_error + pystr" where
  "update_codepoints ud dump yaml_load blocks codepoints used =
     (case reconcile codepoints blocks used of
        (codepoints', Some e) \<Rightarrow> Inl e
      | (codepoints', None) \<Rightarrow>
          (case add_codepoint_comments ud codepoints' blocks of
             Inl e \<Rightarrow> Inl e
           | Inr comments \<Rightarrow>
               (case transform yaml_load (dump codepoints' comments) of
                  Inl e \<Rightarrow> Inl e
                | Inr text \<Rightarrow> Inr (text @ [10]))))"

text \<open>
  The comment of the claims for the entry of \<open>c\<close> in a group, in one expression: the marker,
  the character or \<^verbatim>\<open>(non-printable)\<close>, and for an empty name the standard name, when
  there is one.
\<close>

definition entry_comment :: "unicode_data \<Rightarrow> CodepointNames \<Rightarrow> codepoint \<Rightarrow> pystr" where
  "entry_comment ud item c =
     lit ''# '' @ (if is_visible_character ud c then [c] else lit ''(non-printable)'')
       @ (case map_of item c of
            None \<Rightarrow> []
          | Some v \<Rightarrow>
              (if py_not v
               then (case unicodedata_name ud c of
                       None \<Rightarrow> []
                     | Some n \<Rightarrow> 32 # sub_nonword (is_word ud) (str_upper ud n))
               else []))"

text \<open>
  Following the words of the specification, "non-word runs collapsed to a single
  underscore": reading from the left, a character outside \<^verbatim>\<open>\w\<close> becomes an underscore
  when it starts a run and is dropped when it continues one.
\<close>

fun collapse_runs :: "bool \<Rightarrow> (nat \<Rightarrow> bool) \<Rightarrow> pystr \<Rightarrow> pystr" where
  "collapse_runs in_run w [] = []"
| "collapse_runs in_run w (x # s) =
     (if w x then x # collapse_runs False w s
      else if in_run then collapse_runs True w s
      else 95 # collapse_runs True w s)"

text \<open>The number a string of hexadecimal digits stands for.\<close>

definition hex_digit_value :: "nat \<Rightarrow> nat" where
  "hex_digit_value d = (if d < 58 then d - 48 else d - 55)"

definition hex_value :: "pystr \<Rightarrow> nat" where
  "hex_value ds = foldl (\<lambda>acc d. 16 * acc + hex_digit_value d) 0 ds"

text \<open>
  The block table is sorted and its ranges do not overlap: every block ends before any
  later block starts.
\<close>

definition blocks_sorted :: "UnicodeBlock list \<Rightarrow> bool" where
  "blocks_sorted blocks = sorted_wrt (\<lambda>a b. block_end a < block_start b) blocks"

text \<open>
  Block membership: in every group, \<open>codepoint_to_block\<close> gives for every codepoint what it
  gives for the first key of the group.
\<close>

definition block_membership :: "UnicodeBlock list \<Rightarrow> CodepointNamesRaw \<Rightarrow> bool" where
  "block_membership blocks cps =
     (\<forall>g \<in> set cps. \<forall>k. first_key g = Inr k \<longrightarrow>
        (\<forall>c \<in> fst ` set g. codepoint_to_block c blocks = codepoint_to_block k blocks))"



text \<open>The entries present across all groups of a registry.\<close>

definition all_entries :: "CodepointNamesRaw \<Rightarrow> (codepoint \<times> name_value) set" where
  "all_entries cps = (\<Union>g \<in> set cps. set g)"

text \<open>
  The block of a group is the block of its first key, and a registry has at most one
  group per block when the blocks of its groups are pairwise different.
\<close>

definition group_block :: "UnicodeBlock list \<Rightarrow> CodepointNames \<Rightarrow> UnicodeBlock option" where
  "group_block blocks g =
     (case first_key g of
        Inl e \<Rightarrow> None
      | Inr k \<Rightarrow> (case codepoint_to_block k blocks of Inl e \<Rightarrow> None | Inr b \<Rightarrow> Some b))"

definition group_blocks :: "UnicodeBlock list \<Rightarrow> CodepointNamesRaw \<Rightarrow> UnicodeBlock list" where
  "group_blocks blocks cps = List.map_filter (group_block blocks) cps"

definition one_group_per_block :: "UnicodeBlock list \<Rightarrow> CodepointNamesRaw \<Rightarrow> bool" where
  "one_group_per_block blocks cps = distinct (group_blocks blocks cps)"

section \<open>Block lookup\<close>

lemma codepoint_to_block_found:
  "codepoint_to_block c blocks = Inr b \<Longrightarrow>
     \<exists>pre post. blocks = pre @ b # post \<and> in_block c b \<and> (\<forall>p \<in> set pre. \<not> in_block c p)"
proof (induction blocks)
  case Nil
  then show ?case by simp
next
  case (Cons a blocks)
  show ?case
  proof (cases "in_block c a")
    case True
    with Cons.prems have "a = b" by (auto simp: in_block_def split: if_splits)
    with True have "a # blocks = [] @ b # blocks \<and> in_block c b \<and> (\<forall>p \<in> set []. \<not> in_block c p)"
      by simp
    then show ?thesis by blast
  next
    case False
    with Cons.prems have "codepoint_to_block c blocks = Inr b"
      by (auto simp: in_block_def split: if_splits)
    from Cons.IH [OF this] obtain pre post where
      "blocks = pre @ b # post" "in_block c b" "\<forall>p \<in> set pre. \<not> in_block c p" by blast
    with False have "a # blocks = (a # pre) @ b # post \<and> in_block c b
        \<and> (\<forall>p \<in> set (a # pre). \<not> in_block c p)" by simp
    then show ?thesis by blast
  qed
qed

lemma codepoint_to_block_none:
  "(codepoint_to_block c blocks = Inl e) = (e = StopIteration \<and> (\<forall>b \<in> set blocks. \<not> in_block c b))"
  by (induction blocks) (auto simp: in_block_def)

lemma codepoint_to_block_some:
  "\<exists>b \<in> set blocks. in_block c b \<Longrightarrow> \<exists>b. codepoint_to_block c blocks = Inr b"
  by (cases "codepoint_to_block c blocks") (auto simp: codepoint_to_block_none)

section \<open>The scan for a group\<close>

lemma remove_keys_filter:
  "remove_keys ks used block = filter (\<lambda>kv. fst kv \<in> set used \<or> fst kv \<notin> set ks) block"
proof (induction ks arbitrary: block)
  case Nil
  then show ?case by simp
next
  case (Cons c ks)
  show ?case
    by (auto simp: Cons.IH del_key_def intro!: filter_cong)
qed

lemma remove_unused_codepoints_filter:
  "remove_unused_codepoints cps used = map (filter (\<lambda>kv. fst kv \<in> set used)) cps"
  unfolding remove_unused_codepoints_def remove_keys_filter
  by (auto intro!: filter_cong)

lemma upper_bound_default:
  "upper_bound ks c gt_default = Inr (length (takeWhile (\<lambda>k. \<not> k > c) ks))"
  by (induction ks) (auto simp: gt_default_def)

lemma first_key_simps [simp]:
  "first_key [] = Inl IndexError" "first_key (kv # m) = Inr (fst kv)"
  by (simp_all add: first_key_def)

lemma first_key_Inl: "first_key g = Inl e \<longleftrightarrow> g = [] \<and> e = IndexError"
  by (cases g) auto

lemma first_key_Inr: "first_key g = Inr k \<longleftrightarrow> (\<exists>v m. g = (k, v) # m)"
  by (cases g) auto

lemma scanned_Cons_simps [simp]: "scanned b [] = False" "scanned b (kv # m) = (\<not> in_block (fst kv) b)"
  by (simp_all add: scanned_def)

lemma next_group_Inr:
  "next_group cps b = Inr i \<Longrightarrow>
     i < length cps \<and> (\<exists>k. first_key (cps ! i) = Inr k \<and> in_block k b)
       \<and> (\<forall>h \<in> set (take i cps). scanned b h)"
proof (induction cps arbitrary: i)
  case Nil
  then show ?case by simp
next
  case (Cons a cps)
  show ?case
  proof (cases a)
    case Nil
    with Cons.prems show ?thesis by simp
  next
    case (Cons kv m)
    show ?thesis
    proof (cases "in_block (fst kv) b")
      case True
      with Cons Cons.prems show ?thesis by (auto simp: in_block_def)
    next
      case False
      with Cons Cons.prems obtain j where j: "next_group cps b = Inr j" "i = Suc j"
        by (auto simp: in_block_def split: sum.splits)
      from Cons.IH [OF j(1)] j(2) False Cons show ?thesis by auto
    qed
  qed
qed

lemma next_group_Stop:
  "next_group cps b = Inl StopIteration \<longleftrightarrow> (\<forall>h \<in> set cps. scanned b h)"
proof (induction cps)
  case Nil
  then show ?case by simp
next
  case (Cons a cps)
  then show ?case
    by (cases a) (auto simp: in_block_def split: sum.splits)
qed

lemma next_group_found:
  "\<forall>h \<in> set pre. scanned b h \<Longrightarrow> first_key g = Inr k \<Longrightarrow> in_block k b \<Longrightarrow>
     next_group (pre @ g # post) b = Inr (length pre)"
proof (induction pre)
  case Nil
  then show ?case by (simp add: in_block_def)
next
  case (Cons a pre)
  then show ?case by (cases a) (auto simp: in_block_def)
qed

lemma next_group_Inl:
  "next_group cps b = Inl e \<Longrightarrow> e = StopIteration \<or> (e = IndexError \<and> [] \<in> set cps)"
proof (induction cps)
  case Nil
  then show ?case by simp
next
  case (Cons a cps)
  then show ?case
    by (cases a) (auto simp: in_block_def split: sum.splits if_splits)
qed

lemma upper_bound_compare_blocks:
  "\<forall>h \<in> set cps. h \<noteq> [] \<Longrightarrow>
    upper_bound cps b compare_blocks =
      Inr (length (takeWhile (\<lambda>h. \<not> fst (hd h) > block_end b) cps))"
proof (induction cps)
  case Nil
  then show ?case by simp
next
  case (Cons a cps)
  then show ?case by (cases a) (auto simp: compare_blocks_def)
qed

lemma scanned_nonempty: "scanned b h \<Longrightarrow> h \<noteq> []"
  by (cases h) auto

lemma upper_bound_scanned:
  "\<forall>h \<in> set cps. scanned b h \<Longrightarrow> upper_bound cps b compare_blocks = Inr (new_pos b cps)"
  unfolding new_pos_def
  by (rule upper_bound_compare_blocks) (auto dest: scanned_nonempty)

lemma find_block_cases:
  assumes "find_block cps b = Inr (cps', i)"
  shows "(cps' = cps \<and> next_group cps b = Inr i) \<or>
     ((\<forall>h \<in> set cps. scanned b h) \<and> i = new_pos b cps \<and> cps' = insert_at i [] cps)"
proof (cases "next_group cps b")
  case (Inr j)
  with assms show ?thesis by (simp add: find_block_def)
next
  case (Inl e)
  with assms have e: "e = StopIteration"
    by (cases e) (auto simp: find_block_def)
  with Inl have sc: "\<forall>h \<in> set cps. scanned b h" by (simp add: next_group_Stop)
  from assms Inl e upper_bound_scanned [OF sc] show ?thesis
    using sc by (auto simp: find_block_def)
qed

lemma find_block_Inl:
  assumes "find_block cps b = Inl e"
  shows "e = IndexError \<and> [] \<in> set cps"
proof (cases "next_group cps b")
  case (Inr j)
  with assms show ?thesis by (simp add: find_block_def)
next
  case (Inl e')
  show ?thesis
  proof (cases "e' = StopIteration")
    case True
    with Inl have sc: "\<forall>h \<in> set cps. scanned b h" by (simp add: next_group_Stop)
    from assms Inl True upper_bound_scanned [OF sc] show ?thesis
      by (simp add: find_block_def)
  next
    case False
    with Inl next_group_Inl [OF Inl] assms show ?thesis
      by (cases e') (auto simp: find_block_def)
  qed
qed

section \<open>One round of add_new_codepoint_placeholders\<close>

lemma insert_placeholder_ins: "insert_placeholder c g = Inr (ins c g)"
  by (simp add: insert_placeholder_def ins_def upper_bound_default)

lemma ins_Nil [simp]: "ins c [] = [(c, Name [])]"
  by (simp add: ins_def insert_at_def)

lemma new_pos_le: "new_pos b cps \<le> length cps"
  by (simp add: new_pos_def length_takeWhile_le)

lemma insert_at_update: "i \<le> length xs \<Longrightarrow> (insert_at i x xs)[i := y] = insert_at i y xs"
  by (simp add: insert_at_def list_update_append)

lemma insert_at_nth: "i \<le> length xs \<Longrightarrow> insert_at i x xs ! i = x"
  by (simp add: insert_at_def nth_append)

lemma add_placeholder_ok:
  assumes "add_placeholder cps blocks c = (cps', None)"
  shows "\<exists>b. codepoint_to_block c blocks = Inr b \<and>
     ((\<exists>pre g post k. cps = pre @ g # post \<and> first_key g = Inr k \<and> in_block k b
          \<and> (\<forall>h \<in> set pre. scanned b h) \<and> cps' = pre @ ins c g # post)
      \<or> ((\<forall>h \<in> set cps. scanned b h) \<and> cps' = insert_at (new_pos b cps) [(c, Name [])] cps))"
proof -
  from assms obtain b where b: "codepoint_to_block c blocks = Inr b"
    by (auto simp: add_placeholder_def split: sum.splits)
  with assms obtain cps1 i where f: "find_block cps b = Inr (cps1, i)"
    by (auto simp: add_placeholder_def split: sum.splits)
  with assms b have cps': "cps' = cps1[i := ins c (cps1 ! i)]"
    by (simp add: add_placeholder_def insert_placeholder_ins)
  from find_block_cases [OF f] show ?thesis
  proof
    assume a: "cps1 = cps \<and> next_group cps b = Inr i"
    from next_group_Inr [of cps b i] a obtain k where
      i: "i < length cps" and k: "first_key (cps ! i) = Inr k" "in_block k b"
      and sc: "\<forall>h \<in> set (take i cps). scanned b h" by blast
    from i have "cps = take i cps @ cps ! i # drop (Suc i) cps"
      by (rule id_take_nth_drop)
    moreover from i a cps' have "cps' = take i cps @ ins c (cps ! i) # drop (Suc i) cps"
      by (simp add: upd_conv_take_nth_drop)
    ultimately show ?thesis using b k sc by blast
  next
    assume a: "(\<forall>h \<in> set cps. scanned b h) \<and> i = new_pos b cps \<and> cps1 = insert_at i [] cps"
    with cps' new_pos_le [of b cps] have "cps' = insert_at (new_pos b cps) [(c, Name [])] cps"
      by (simp add: insert_at_update insert_at_nth)
    with a b show ?thesis by blast
  qed
qed

lemma add_placeholder_error:
  assumes "add_placeholder cps blocks c = (cps', Some e)"
  shows "cps' = cps \<and> ((e = StopIteration \<and> (\<forall>b \<in> set blocks. \<not> in_block c b))
           \<or> (e = IndexError \<and> [] \<in> set cps))"
proof (cases "codepoint_to_block c blocks")
  case (Inl e')
  with assms show ?thesis
    by (auto simp: add_placeholder_def codepoint_to_block_none)
next
  case (Inr b)
  show ?thesis
  proof (cases "find_block cps b")
    case (Inl e')
    with Inr assms find_block_Inl [OF Inl] show ?thesis
      by (auto simp: add_placeholder_def)
  next
    case (Inr r)
    with \<open>codepoint_to_block c blocks = Inr b\<close> assms show ?thesis
      by (cases r) (simp add: add_placeholder_def insert_placeholder_ins)
  qed
qed

section \<open>Keys of the registry\<close>

lemma all_keys_remove:
  "all_keys (remove_unused_codepoints cps used) = all_keys cps \<inter> set used"
  by (auto simp: all_keys_def remove_unused_codepoints_filter)

lemma set_insert_at [simp]: "set (insert_at i x xs) = insert x (set xs)"
proof -
  have "set (take i xs) \<union> set (drop i xs) = set xs"
    by (metis append_take_drop_id set_append)
  then show ?thesis by (auto simp: insert_at_def)
qed

lemma set_ins: "set (ins c g) = (if c \<in> fst ` set g then set g else insert (c, Name []) (set g))"
  by (simp add: ins_def)

lemma keys_ins [simp]: "fst ` set (ins c g) = insert c (fst ` set g)"
  by (auto simp: set_ins)

lemma ins_nonempty [simp]: "ins c g \<noteq> []" "[] \<noteq> ins c g"
  by (cases g; auto simp: ins_def insert_at_def)+

lemma all_keys_simps [simp]:
  "all_keys [] = {}"
  "all_keys (g # cps) = fst ` set g \<union> all_keys cps"
  "all_keys (pre @ post) = all_keys pre \<union> all_keys post"
  by (auto simp: all_keys_def)

lemma all_keys_insert_at [simp]: "all_keys (insert_at i g cps) = fst ` set g \<union> all_keys cps"
  by (auto simp: all_keys_def)

lemma all_keys_add_placeholder:
  "add_placeholder cps blocks c = (cps', None) \<Longrightarrow> all_keys cps' = insert c (all_keys cps)"
  by (drule add_placeholder_ok) auto

lemma add_new_error_state:
  "add_placeholder cps blocks c = (cps', Some e) \<Longrightarrow> cps' = cps"
  by (drule add_placeholder_error) simp

lemma all_keys_add_new_ok:
  "snd (add_new_codepoint_placeholders cps blocks used) = None \<Longrightarrow>
     all_keys (fst (add_new_codepoint_placeholders cps blocks used)) = all_keys cps \<union> set used"
proof (induction used arbitrary: cps)
  case Nil
  then show ?case by simp
next
  case (Cons c used)
  obtain cps' r where step: "add_placeholder cps blocks c = (cps', r)"
    by (cases "add_placeholder cps blocks c")
  show ?case
  proof (cases r)
    case None
    with step Cons.prems have "snd (add_new_codepoint_placeholders cps' blocks used) = None"
      by simp
    from Cons.IH [OF this] step None all_keys_add_placeholder [of cps blocks c cps']
    show ?thesis by auto
  next
    case (Some e)
    with step Cons.prems show ?thesis by simp
  qed
qed

lemma all_keys_add_new_sub:
  "all_keys (fst (add_new_codepoint_placeholders cps blocks used)) \<subseteq> all_keys cps \<union> set used"
proof (induction used arbitrary: cps)
  case Nil
  then show ?case by simp
next
  case (Cons c used)
  obtain cps' r where step: "add_placeholder cps blocks c = (cps', r)"
    by (cases "add_placeholder cps blocks c")
  show ?case
  proof (cases r)
    case None
    with step Cons.IH [of cps'] all_keys_add_placeholder [of cps blocks c cps']
    show ?thesis by auto
  next
    case (Some e)
    with step add_new_error_state [of cps blocks c cps' e] show ?thesis by auto
  qed
qed

text \<open>no empty group: the round raises nothing for a covered codepoint\<close>

lemma add_placeholder_total:
  assumes "[] \<notin> set cps" "\<exists>b \<in> set blocks. in_block c b"
  shows "\<exists>cps'. add_placeholder cps blocks c = (cps', None) \<and> [] \<notin> set cps'"
proof -
  obtain cps' r where step: "add_placeholder cps blocks c = (cps', r)"
    by (cases "add_placeholder cps blocks c")
  show ?thesis
  proof (cases r)
    case None
    from add_placeholder_ok [OF step [unfolded None]] assms(1) have "[] \<notin> set cps'"
      by auto
    with step None show ?thesis by simp
  next
    case (Some e)
    with step add_placeholder_error [of cps blocks c cps' e] assms show ?thesis by auto
  qed
qed

lemma add_new_total:
  "[] \<notin> set cps \<Longrightarrow> \<forall>c \<in> set used. \<exists>b \<in> set blocks. in_block c b \<Longrightarrow>
     snd (add_new_codepoint_placeholders cps blocks used) = None"
proof (induction used arbitrary: cps)
  case Nil
  then show ?case by simp
next
  case (Cons c used)
  from Cons.prems add_placeholder_total [of cps blocks c] obtain cps' where
    "add_placeholder cps blocks c = (cps', None)" "[] \<notin> set cps'" by auto
  with Cons.IH [of cps'] Cons.prems show ?case by simp
qed

lemma remove_nonempty:
  "\<forall>g \<in> set cps. \<exists>c \<in> set used. c \<in> fst ` set g \<Longrightarrow> [] \<notin> set (remove_unused_codepoints cps used)"
proof -
  assume a: "\<forall>g \<in> set cps. \<exists>c \<in> set used. c \<in> fst ` set g"
  have "filter (\<lambda>kv. fst kv \<in> set used) g \<noteq> []" if "g \<in> set cps" for g
    using a that by (fastforce simp: filter_empty_conv)
  then show ?thesis
    by (fastforce simp: remove_unused_codepoints_filter)
qed

section \<open>Key set after reconciliation\<close>

text \<open>
  Where the reconciliation ends without an exception, the codepoints present across all
  groups are exactly the used ones; and it ends without an exception when every used
  codepoint lies in some block and no group is emptied by the removal.
\<close>

lemma reconcile_key_set_ended:
  "(snd (reconcile cps blocks used) = None \<longrightarrow> all_keys (fst (reconcile cps blocks used)) = set used)
   \<and> ((\<forall>c \<in> set used. \<exists>b \<in> set blocks. in_block c b) \<and>
        (\<forall>g \<in> set cps. \<exists>c \<in> set used. c \<in> fst ` set g)
       \<longrightarrow> snd (reconcile cps blocks used) = None)"
  unfolding reconcile_def
  using all_keys_add_new_ok [of "remove_unused_codepoints cps used" blocks used]
    add_new_total [of "remove_unused_codepoints cps used" used blocks]
    remove_nonempty [of cps used]
  by (auto simp: all_keys_remove)

text \<open>
  Claim C1: after the reconciliation the codepoints present across all groups are exactly
  the used ones. The code misses it on a registry whose block table covers every used
  codepoint. The registry holds \<open>A\<close> and the layouts now use \<open>B\<close> only: the removal empties
  the group, \<open>find_block\<close> calls \<open>first_key\<close> on the empty group, and the IndexError, which
  \<^verbatim>\<open>except StopIteration\<close> does not catch, leaves the registry without \<open>B\<close>. The same
  happens with no new codepoint at all: the registry holds \<open>A\<close> and \<open>a\<close> in two groups, the
  layouts use \<open>a\<close> only, and the scan for the group of \<open>a\<close> meets the emptied group of \<open>A\<close>.
\<close>

theorem reconcile_key_set_fails_on_emptied_group:
  "reconcile [[(65, Name (lit ''LETTER_A''))]]
     [\<lparr>block_start = 65, block_end = 90, block_name = lit ''Basic Latin''\<rparr>] [66]
     = ([[]], Some IndexError)
   \<and> all_keys (fst (reconcile [[(65, Name (lit ''LETTER_A''))]]
     [\<lparr>block_start = 65, block_end = 90, block_name = lit ''Basic Latin''\<rparr>] [66])) \<noteq> set [66]
   \<and> reconcile [[(65, Name (lit ''A''))], [(97, Name (lit ''a''))]]
       [\<lparr>block_start = 65, block_end = 90, block_name = lit ''upper''\<rparr>,
        \<lparr>block_start = 97, block_end = 122, block_name = lit ''lower''\<rparr>] [97]
     = ([[], [(97, Name (lit ''a''))]], Some IndexError)"
  by (simp add: reconcile_def remove_unused_codepoints_def del_key_def add_placeholder_def
      find_block_def)

section \<open>Block lookup is total exactly on the covered codepoints\<close>

text \<open>
  Claim C5. For a codepoint that lies in some block of the table, \<open>codepoint_to_block\<close>
  returns the first block of the table whose range holds it; for a codepoint that lies in
  no block it raises the lookup error (StopIteration), and returns no block.
\<close>

theorem codepoint_to_block_total_on_covered:
  "((\<exists>b \<in> set blocks. in_block c b) \<longrightarrow>
      (\<exists>pre b post. blocks = pre @ b # post \<and> in_block c b \<and> (\<forall>p \<in> set pre. \<not> in_block c p)
         \<and> codepoint_to_block c blocks = Inr b))
   \<and> ((\<forall>b \<in> set blocks. \<not> in_block c b) \<longrightarrow> codepoint_to_block c blocks = Inl StopIteration)"
proof (intro conjI impI)
  assume "\<exists>b \<in> set blocks. in_block c b"
  then obtain b where b: "codepoint_to_block c blocks = Inr b"
    using codepoint_to_block_some by blast
  from codepoint_to_block_found [OF b] b
  show "\<exists>pre b post. blocks = pre @ b # post \<and> in_block c b \<and> (\<forall>p \<in> set pre. \<not> in_block c p)
         \<and> codepoint_to_block c blocks = Inr b" by blast
next
  assume "\<forall>b \<in> set blocks. \<not> in_block c b"
  then show "codepoint_to_block c blocks = Inl StopIteration"
    by (simp add: codepoint_to_block_none)
qed

theorem codepoint_to_block_total_on_covered_witness:
  "codepoint_to_block 98
     [\<lparr>block_start = 65, block_end = 90, block_name = lit ''upper''\<rparr>,
      \<lparr>block_start = 97, block_end = 122, block_name = lit ''lower''\<rparr>]
     = Inr \<lparr>block_start = 97, block_end = 122, block_name = lit ''lower''\<rparr>
   \<and> codepoint_to_block 48
     [\<lparr>block_start = 65, block_end = 90, block_name = lit ''upper''\<rparr>,
      \<lparr>block_start = 97, block_end = 122, block_name = lit ''lower''\<rparr>]
     = Inl StopIteration"
proof -
  let ?blocks = "[\<lparr>block_start = 65, block_end = 90, block_name = lit ''upper''\<rparr>,
      \<lparr>block_start = 97, block_end = 122, block_name = lit ''lower''\<rparr>]"
  have h1: "\<exists>b \<in> set ?blocks. in_block 98 b" by (simp add: in_block_def)
  have h2: "\<forall>b \<in> set ?blocks. \<not> in_block 48 b" by (simp add: in_block_def)
  from codepoint_to_block_total_on_covered [of ?blocks 98] h1
  obtain pre b post where
    d: "?blocks = pre @ b # post" "in_block 98 b" "\<forall>p \<in> set pre. \<not> in_block 98 p"
    and r: "codepoint_to_block 98 ?blocks = Inr b" by blast
  from r have "b = \<lparr>block_start = 97, block_end = 122, block_name = lit ''lower''\<rparr>"
    by simp
  with r have "codepoint_to_block 98 ?blocks
      = Inr \<lparr>block_start = 97, block_end = 122, block_name = lit ''lower''\<rparr>" by blast
  moreover from codepoint_to_block_total_on_covered [of ?blocks 48] h2
  have "codepoint_to_block 48 ?blocks = Inl StopIteration" by blast
  ultimately show ?thesis by blast
qed

section \<open>Empty groups\<close>

lemma add_codepoint_comments_empty_group:
  "[] \<in> set cps \<Longrightarrow> \<exists>e. add_codepoint_comments ud cps blocks = Inl e"
proof (induction cps)
  case Nil
  then show ?case by simp
next
  case (Cons g cps)
  show ?case
  proof (cases "g = []")
    case True
    then show ?thesis by simp
  next
    case False
    with Cons obtain e where "add_codepoint_comments ud cps blocks = Inl e" by auto
    then show ?thesis by (auto split: sum.splits)
  qed
qed

lemma add_codepoint_comments_at_empty_group:
  "add_codepoint_comments ud pre blocks = Inr a \<Longrightarrow>
     add_codepoint_comments ud (pre @ [] # post) blocks = Inl IndexError"
proof (induction pre arbitrary: a)
  case Nil
  then show ?case by simp
next
  case (Cons g pre)
  then show ?case by (auto split: sum.splits)
qed

lemma add_placeholder_keeps_empty:
  "[] \<in> set cps \<Longrightarrow> [] \<in> set (fst (add_placeholder cps blocks c))"
proof -
  assume e: "[] \<in> set cps"
  obtain cps' r where step: "add_placeholder cps blocks c = (cps', r)"
    by (cases "add_placeholder cps blocks c")
  show ?thesis
  proof (cases r)
    case None
    from add_placeholder_ok [OF step [unfolded None]] e have "[] \<in> set cps'"
      by (auto simp: first_key_Inr)
    with step show ?thesis by simp
  next
    case (Some x)
    with step add_new_error_state [of cps blocks c cps' x] e show ?thesis by simp
  qed
qed

lemma add_new_keeps_empty:
  "[] \<in> set cps \<Longrightarrow> [] \<in> set (fst (add_new_codepoint_placeholders cps blocks used))"
proof (induction used arbitrary: cps)
  case Nil
  then show ?case by simp
next
  case (Cons c used)
  obtain cps' r where step: "add_placeholder cps blocks c = (cps', r)"
    by (cases "add_placeholder cps blocks c")
  with add_placeholder_keeps_empty [OF Cons.prems, of blocks c] have e: "[] \<in> set cps'" by simp
  show ?case
  proof (cases r)
    case None
    with step Cons.IH [OF e] show ?thesis by simp
  next
    case (Some x)
    with step e show ?thesis by simp
  qed
qed

lemma remove_empties:
  "g \<in> set cps \<Longrightarrow> fst ` set g \<inter> set used = {} \<Longrightarrow> [] \<in> set (remove_unused_codepoints cps used)"
proof -
  assume g: "g \<in> set cps" and d: "fst ` set g \<inter> set used = {}"
  from d have "filter (\<lambda>kv. fst kv \<in> set used) g = []"
    by (auto simp: filter_empty_conv)
  with g show ?thesis
    by (force simp: remove_unused_codepoints_filter)
qed

lemma find_block_at_empty_group:
  assumes "\<forall>h \<in> set pre. scanned b h"
  shows "find_block (pre @ [] # post) b = Inl IndexError"
proof -
  from assms have "next_group (pre @ [] # post) b = Inl IndexError"
  proof (induction pre)
    case Nil
    then show ?case by simp
  next
    case (Cons h pre)
    then show ?case by (cases h) (auto simp: in_block_def)
  qed
  then show ?thesis by (simp add: find_block_def)
qed

text \<open>
  Claim C10. A registry with an empty group makes the annotation pass raise (IndexError,
  from \<open>first_key\<close>, when the groups before the empty one were annotated). A group of the
  registry none of whose codepoints is used is emptied by the removal and stays empty, so
  the whole of \<open>update_codepoints\<close> then ends with an exception. And \<open>find_block\<close> raises
  IndexError when its scan reaches an empty group.
\<close>

theorem empty_group_raises:
  "([] \<in> set cps \<longrightarrow> (\<exists>e. add_codepoint_comments ud cps blocks = Inl e))
   \<and> (add_codepoint_comments ud pre blocks = Inr a \<longrightarrow>
        add_codepoint_comments ud (pre @ [] # post) blocks = Inl IndexError)
   \<and> (g \<in> set cps \<and> fst ` set g \<inter> set used = {} \<longrightarrow>
        (\<exists>e. update_codepoints ud dump yaml_load blocks cps used = Inl e))
   \<and> ((\<forall>h \<in> set pre. scanned b h) \<longrightarrow> find_block (pre @ [] # post) b = Inl IndexError)"
proof (intro conjI impI)
  assume "[] \<in> set cps"
  then show "\<exists>e. add_codepoint_comments ud cps blocks = Inl e"
    by (rule add_codepoint_comments_empty_group)
next
  assume "add_codepoint_comments ud pre blocks = Inr a"
  then show "add_codepoint_comments ud (pre @ [] # post) blocks = Inl IndexError"
    by (rule add_codepoint_comments_at_empty_group)
next
  assume "g \<in> set cps \<and> fst ` set g \<inter> set used = {}"
  then have "[] \<in> set (remove_unused_codepoints cps used)"
    by (auto intro: remove_empties)
  then have e: "[] \<in> set (fst (reconcile cps blocks used))"
    unfolding reconcile_def by (rule add_new_keeps_empty)
  obtain cps' r where rc: "reconcile cps blocks used = (cps', r)"
    by (cases "reconcile cps blocks used")
  show "\<exists>e. update_codepoints ud dump yaml_load blocks cps used = Inl e"
  proof (cases r)
    case None
    from e rc have "[] \<in> set cps'" by simp
    from add_codepoint_comments_empty_group [OF this, of ud blocks] rc None
    show ?thesis by (auto simp: update_codepoints_def)
  next
    case (Some x)
    with rc show ?thesis by (simp add: update_codepoints_def)
  qed
next
  assume "\<forall>h \<in> set pre. scanned b h"
  then show "find_block (pre @ [] # post) b = Inl IndexError"
    by (rule find_block_at_empty_group)
qed

theorem empty_group_raises_witness:
  "(\<exists>e. add_codepoint_comments
          \<lparr>is_visible_character = (\<lambda>c. True), unicodedata_name = (\<lambda>c. None),
           str_upper = (\<lambda>s. s), is_word = (\<lambda>x. True)\<rparr>
          [[(65, Name (lit ''A''))], []]
          [\<lparr>block_start = 65, block_end = 90, block_name = lit ''upper''\<rparr>,
           \<lparr>block_start = 97, block_end = 122, block_name = lit ''lower''\<rparr>] = Inl e)
   \<and> add_codepoint_comments
          \<lparr>is_visible_character = (\<lambda>c. True), unicodedata_name = (\<lambda>c. None),
           str_upper = (\<lambda>s. s), is_word = (\<lambda>x. True)\<rparr>
          ([[(65, Name (lit ''A''))]] @ [] # [])
          [\<lparr>block_start = 65, block_end = 90, block_name = lit ''upper''\<rparr>,
           \<lparr>block_start = 97, block_end = 122, block_name = lit ''lower''\<rparr>] = Inl IndexError
   \<and> (\<exists>e. update_codepoints
          \<lparr>is_visible_character = (\<lambda>c. True), unicodedata_name = (\<lambda>c. None),
           str_upper = (\<lambda>s. s), is_word = (\<lambda>x. True)\<rparr>
          (\<lambda>r a. []) (\<lambda>s. Inl YAMLError)
          [\<lparr>block_start = 65, block_end = 90, block_name = lit ''upper''\<rparr>,
           \<lparr>block_start = 97, block_end = 122, block_name = lit ''lower''\<rparr>]
          [[(65, Name (lit ''A''))], [(97, Name (lit ''a''))]] [65] = Inl e)
   \<and> find_block ([[(65, Name (lit ''A''))]] @ [] # [])
          \<lparr>block_start = 97, block_end = 122, block_name = lit ''lower''\<rparr> = Inl IndexError"
proof -
  let ?ud = "\<lparr>is_visible_character = (\<lambda>c. True), unicodedata_name = (\<lambda>c. None),
           str_upper = (\<lambda>s. s), is_word = (\<lambda>x. True)\<rparr> :: unicode_data"
  let ?upper = "\<lparr>block_start = 65, block_end = 90, block_name = lit ''upper''\<rparr>"
  let ?lower = "\<lparr>block_start = 97, block_end = 122, block_name = lit ''lower''\<rparr>"
  let ?dump = "(\<lambda>r a. []) :: CodepointNamesRaw \<Rightarrow> annotations \<Rightarrow> pystr"
  let ?load = "(\<lambda>s. Inl YAMLError) :: pystr \<Rightarrow> py_error + yaml_value"
  let ?A = "[(65, Name (lit ''A''))] :: CodepointNames"
  let ?a = "[(97, Name (lit ''a''))] :: CodepointNames"
  note inst = empty_group_raises [of "[?A, []]" ?ud "[?upper, ?lower]" "[?A]"
      "[(10 # lit ''upper'', [(65, lit ''# A'')])]" "[]" ?a "[65]" ?dump ?load ?lower]
  note inst' = empty_group_raises [of "[?A, ?a]" ?ud "[?upper, ?lower]" "[?A]"
      "[(10 # lit ''upper'', [(65, lit ''# A'')])]" "[]" ?a "[65]" ?dump ?load ?lower]
  have h1: "[] \<in> set [?A, []]" by simp
  have h2: "add_codepoint_comments ?ud [?A] [?upper, ?lower]
      = Inr [(10 # lit ''upper'', [(65, lit ''# A'')])]"
    by (simp add: get_char_comments_def lit_def)
  have h3: "?a \<in> set [?A, ?a] \<and> fst ` set ?a \<inter> set [65] = {}" by simp
  have h4: "\<forall>h \<in> set [?A]. scanned ?lower h" by (simp add: in_block_def)
  from inst h1 have "\<exists>e. add_codepoint_comments ?ud [?A, []] [?upper, ?lower] = Inl e"
    by blast
  moreover from inst h2
  have "add_codepoint_comments ?ud ([?A] @ [] # []) [?upper, ?lower] = Inl IndexError"
    by blast
  moreover from inst' h3
  have "\<exists>e. update_codepoints ?ud ?dump ?load [?upper, ?lower] [?A, ?a] [65] = Inl e"
    by blast
  moreover from inst h4 have "find_block ([?A] @ [] # []) ?lower = Inl IndexError"
    by blast
  ultimately show ?thesis by blast
qed

section \<open>The comments of the annotation pass\<close>

lemma collapse_runs_dropWhile:
  "collapse_runs True w s = collapse_runs False w (dropWhile (\<lambda>y. \<not> w y) s)"
  by (induction s) auto

lemma sub_nonword_collapse: "sub_nonword w s = collapse_runs False w s"
proof (induction w s rule: sub_nonword.induct)
  case (1 w)
  then show ?case by simp
next
  case (2 w x s)
  then show ?case by (simp add: collapse_runs_dropWhile)
qed

lemma lit_nonempty [simp]: "lit ''(non-printable)'' \<noteq> []" "lit ''# '' = [35, 32]" "lit '' '' = [32]"
  by (simp_all add: lit_def)

lemma get_char_comments_join:
  "map_of item c = Some v \<Longrightarrow>
     \<exists>fr. get_char_comments ud item c = Inr fr \<and> join (lit '' '') fr \<noteq> []
        \<and> lit ''# '' @ join (lit '' '') fr = entry_comment ud item c"
  by (auto simp: get_char_comments_def entry_comment_def Let_def split: option.splits)

lemma eol_comments_ok:
  "set keys \<subseteq> fst ` set item \<Longrightarrow>
     eol_comments ud item keys = Inr (map (\<lambda>c. (c, entry_comment ud item c)) keys)"
proof (induction keys)
  case Nil
  then show ?case by simp
next
  case (Cons c keys)
  then have "c \<in> fst ` set item" by simp
  then obtain v where "map_of item c = Some v"
    by (metis domD dom_map_of_conv_image_fst)
  from get_char_comments_join [OF this, of ud] obtain fr where
    "get_char_comments ud item c = Inr fr" "join (lit '' '') fr \<noteq> []"
    "lit ''# '' @ join (lit '' '') fr = entry_comment ud item c" by blast
  with Cons show ?case by simp
qed

lemma add_codepoint_comments_ok:
  "add_codepoint_comments ud cps blocks = Inr anns \<Longrightarrow>
     map snd anns = map (\<lambda>item. map (\<lambda>c. (c, entry_comment ud item c)) (map fst item)) cps"
proof (induction cps arbitrary: anns)
  case Nil
  then show ?case by simp
next
  case (Cons item cps)
  from Cons.prems eol_comments_ok [of "map fst item" item ud]
  show ?case by (auto split: sum.splits dest: Cons.IH)
qed

lemma add_codepoint_comments_total:
  "\<forall>g \<in> set cps. \<exists>k b. first_key g = Inr k \<and> codepoint_to_block k blocks = Inr b \<Longrightarrow>
     \<exists>anns. add_codepoint_comments ud cps blocks = Inr anns"
proof (induction cps)
  case Nil
  then show ?case by simp
next
  case (Cons item cps)
  then obtain anns where "add_codepoint_comments ud cps blocks = Inr anns" by auto
  with Cons.prems eol_comments_ok [of "map fst item" item ud] show ?case by auto
qed

lemma map_of_tabulate:
  "map_of (map (\<lambda>c. (c, f c)) keys) c = (if c \<in> set keys then Some (f c) else None)"
  by (induction keys) auto

text \<open>
  Claim C7. When the annotation pass ends, it has attached a comment to every entry of
  every group, in the order of the entries. The comment of the entry of \<open>c\<close> with value
  \<open>v\<close> starts with the character itself when \<open>c\<close> is visible and with \<^verbatim>\<open>(non-printable)\<close>
  otherwise; a second fragment follows exactly when \<open>v\<close> is empty and \<open>c\<close> has a standard
  name, and it is that name in upper case with every run of characters outside \<^verbatim>\<open>\w\<close>
  collapsed to one underscore. A codepoint without a standard name raises nothing: the
  pass ends whenever every group has a first key that lies in a block.
\<close>

theorem annotation_comment_fragments:
  "(add_codepoint_comments ud cps blocks = Inr anns \<longrightarrow>
      length anns = length cps \<and>
      (\<forall>i < length cps.
         map fst (snd (anns ! i)) = map fst (cps ! i) \<and>
         (\<forall>c v. map_of (cps ! i) c = Some v \<longrightarrow>
            map_of (snd (anns ! i)) c =
              Some (lit ''# ''
                @ (if is_visible_character ud c then [c] else lit ''(non-printable)'')
                @ (if py_not v
                   then (case unicodedata_name ud c of
                           None \<Rightarrow> []
                         | Some n \<Rightarrow> 32 # collapse_runs False (is_word ud) (str_upper ud n))
                   else [])))))
   \<and> ((\<forall>g \<in> set cps. \<exists>k b. first_key g = Inr k \<and> codepoint_to_block k blocks = Inr b) \<longrightarrow>
        (\<exists>anns. add_codepoint_comments ud cps blocks = Inr anns))"
proof (rule conjI; rule impI)
  let ?text = "\<lambda>c v. lit ''# ''
                @ (if is_visible_character ud c then [c] else lit ''(non-printable)'')
                @ (if py_not v
                   then (case unicodedata_name ud c of
                           None \<Rightarrow> []
                         | Some n \<Rightarrow> 32 # collapse_runs False (is_word ud) (str_upper ud n))
                   else [])"
  let ?P = "\<lambda>i. map fst (snd (anns ! i)) = map fst (cps ! i) \<and>
         (\<forall>c v. map_of (cps ! i) c = Some v \<longrightarrow> map_of (snd (anns ! i)) c = Some (?text c v))"
  assume ok: "add_codepoint_comments ud cps blocks = Inr anns"
  from add_codepoint_comments_ok [OF ok]
  have m: "map snd anns = map (\<lambda>item. map (\<lambda>c. (c, entry_comment ud item c)) (map fst item)) cps" .
  have "length anns = length (map snd anns)" by simp
  also from m have "\<dots> = length cps" by simp
  finally have len: "length anns = length cps" .
  have each: "?P i" if i: "i < length cps" for i
  proof -
    from i len have "snd (anns ! i) = map snd anns ! i" by simp
    also from m i have "\<dots> = map (\<lambda>c. (c, entry_comment ud (cps ! i) c)) (map fst (cps ! i))"
      by simp
    finally have s: "snd (anns ! i) = map (\<lambda>c. (c, entry_comment ud (cps ! i) c)) (map fst (cps ! i))" .
    have look: "map_of (snd (anns ! i)) c = Some (entry_comment ud (cps ! i) c)"
      if "map_of (cps ! i) c = Some v" for c v
    proof -
      from that have "c \<in> dom (map_of (cps ! i))" by (rule domI)
      then have "c \<in> fst ` set (cps ! i)" by (simp add: dom_map_of_conv_image_fst)
      with map_of_tabulate [of "\<lambda>c. entry_comment ud (cps ! i) c" "map fst (cps ! i)" c]
      show ?thesis unfolding s by simp
    qed
    have expl: "entry_comment ud (cps ! i) c = ?text c v"
      if "map_of (cps ! i) c = Some v" for c v
      using that by (simp add: entry_comment_def sub_nonword_collapse split: option.splits)
    have keys: "map fst (snd (anns ! i)) = map fst (cps ! i)"
      unfolding s by (simp add: comp_def)
    show ?thesis
    proof (intro conjI allI impI)
      show "map fst (snd (anns ! i)) = map fst (cps ! i)" by (rule keys)
    next
      fix c v
      assume m: "map_of (cps ! i) c = Some v"
      from look [OF m] expl [OF m]
      show "map_of (snd (anns ! i)) c = Some (?text c v)" by (simp only:)
    qed
  qed
  show "length anns = length cps \<and> (\<forall>i < length cps. ?P i)"
  proof (intro conjI allI impI)
    show "length anns = length cps" by (rule len)
  next
    fix i assume i: "i < length cps"
    from each [OF i] show "map fst (snd (anns ! i)) = map fst (cps ! i)"
      by (rule conjunct1)
  next
    fix i c v assume i: "i < length cps" and m: "map_of (cps ! i) c = Some v"
    from each [OF i, THEN conjunct2, THEN spec, THEN spec, THEN mp, OF m]
    show "map_of (snd (anns ! i)) c = Some (?text c v)" .
  qed
next
  assume "\<forall>g \<in> set cps. \<exists>k b. first_key g = Inr k \<and> codepoint_to_block k blocks = Inr b"
  then show "\<exists>anns. add_codepoint_comments ud cps blocks = Inr anns"
    by (rule add_codepoint_comments_total)
qed

theorem annotation_comment_fragments_witness:
  "\<exists>anns.
     add_codepoint_comments
       \<lparr>is_visible_character = (\<lambda>c. 33 \<le> c),
        unicodedata_name = (\<lambda>c. if c = 66 then Some (lit ''latin capital-letter  b'') else None),
        str_upper = map (\<lambda>x. if 97 \<le> x \<and> x \<le> 122 then x - 32 else x),
        is_word = (\<lambda>x. (48 \<le> x \<and> x \<le> 57) \<or> (65 \<le> x \<and> x \<le> 90) \<or> x = 95 \<or> (97 \<le> x \<and> x \<le> 122))\<rparr>
       [[(0, Name []), (65, Name (lit ''A'')), (66, Name [])]]
       [\<lparr>block_start = 0, block_end = 127, block_name = lit ''Basic Latin''\<rparr>] = Inr anns
     \<and> length anns = 1
     \<and> map fst (snd (anns ! 0)) = [0, 65, 66]
     \<and> map_of (snd (anns ! 0)) 0 = Some (lit ''# (non-printable)'')
     \<and> map_of (snd (anns ! 0)) 65 = Some (lit ''# A'')
     \<and> map_of (snd (anns ! 0)) 66 = Some (lit ''# B LATIN_CAPITAL_LETTER_B'')"
proof -
  let ?ud = "\<lparr>is_visible_character = (\<lambda>c. 33 \<le> c),
        unicodedata_name = (\<lambda>c. if c = 66 then Some (lit ''latin capital-letter  b'') else None),
        str_upper = map (\<lambda>x. if 97 \<le> x \<and> x \<le> 122 then x - 32 else x),
        is_word = (\<lambda>x. (48 \<le> x \<and> x \<le> 57) \<or> (65 \<le> x \<and> x \<le> 90) \<or> x = 95 \<or> (97 \<le> x \<and> x \<le> 122))\<rparr>
        :: unicode_data"
  let ?cps = "[[(0, Name []), (65, Name (lit ''A'')), (66, Name [])]] :: CodepointNamesRaw"
  let ?blocks = "[\<lparr>block_start = 0, block_end = 127, block_name = lit ''Basic Latin''\<rparr>]"
  have h: "\<forall>g \<in> set ?cps. \<exists>k b. first_key g = Inr k \<and> codepoint_to_block k ?blocks = Inr b"
    by simp
  from annotation_comment_fragments [of ?ud ?cps ?blocks, THEN conjunct2, THEN mp, OF h]
  obtain anns where a: "add_codepoint_comments ?ud ?cps ?blocks = Inr anns" ..
  note p = annotation_comment_fragments [of ?ud ?cps ?blocks anns, THEN conjunct1, THEN mp, OF a]
  have i0: "0 < length ?cps" by simp
  note e0 = p [THEN conjunct2, THEN spec, of 0, THEN mp, OF i0]
  have k0: "map_of (?cps ! 0) 0 = Some (Name [])" by simp
  have k65: "map_of (?cps ! 0) 65 = Some (Name (lit ''A''))" by simp
  have k66: "map_of (?cps ! 0) 66 = Some (Name [])" by simp
  note c0 = e0 [THEN conjunct2, THEN spec, THEN spec, THEN mp, OF k0]
  note c65 = e0 [THEN conjunct2, THEN spec, THEN spec, THEN mp, OF k65]
  note c66 = e0 [THEN conjunct2, THEN spec, THEN spec, THEN mp, OF k66]
  from c0 have r0: "map_of (snd (anns ! 0)) 0 = Some (lit ''# (non-printable)'')"
    by (simp add: lit_def)
  from c65 have r65: "map_of (snd (anns ! 0)) 65 = Some (lit ''# A'')"
    by (simp add: lit_def)
  from c66 have r66: "map_of (snd (anns ! 0)) 66 = Some (lit ''# B LATIN_CAPITAL_LETTER_B'')"
    by (simp add: lit_def)
  from e0 [THEN conjunct1] have rk: "map fst (snd (anns ! 0)) = [0, 65, 66]" by simp
  from p [THEN conjunct1] have rl: "length anns = 1" by simp
  from a rl rk r0 r65 r66 show ?thesis by (intro exI [of _ anns] conjI)
qed

section \<open>Comment padding\<close>

lemma pad_match_Cons_space:
  assumes "pad_match r = Some t"
  shows "pad_match (32 # r) = Some t"
proof -
  from assms obtain r' where r: "r = 32 # r'"
    by (cases r) (auto simp: pad_match_def split: if_splits)
  with assms have "dropWhile (\<lambda>y. y = 32) r' = 35 # t"
    by (cases "dropWhile (\<lambda>y. y = 32) r'") (auto simp: pad_match_def split: if_splits)
  with r show ?thesis by (simp add: pad_match_def)
qed

lemma pad_match_run:
  "pad_match (replicate (Suc n) 32 @ 35 # b) = Some b"
proof -
  have "dropWhile (\<lambda>y. y = 32) (replicate n 32 @ 35 # b) = 35 # b"
    by (induction n) auto
  then show ?thesis by (simp add: pad_match_def)
qed

lemma comment_pad_sub_run:
  "comment_pad_sub (replicate (Suc n) 32 @ 35 # b) = 32 # 35 # comment_pad_sub b"
  using pad_match_run [of n b] by simp

lemma comment_pad_sub_other:
  "x \<noteq> 32 \<Longrightarrow> comment_pad_sub (x # r) = x # comment_pad_sub r"
  by (simp add: pad_match_def)

lemma comment_pad_sub_head_hash:
  "take 1 (comment_pad_sub r) = [35] \<Longrightarrow> take 1 r = [35]"
  by (cases r) (auto split: option.splits)

lemma comment_pad_sub_head_pad:
  assumes "take 2 (comment_pad_sub r) = [32, 35]"
  shows "pad_match r \<noteq> None"
proof
  assume n: "pad_match r = None"
  show False
  proof (cases r)
    case Nil
    with assms show False by simp
  next
    case (Cons y r')
    with n assms have y: "y = 32" and h: "take 1 (comment_pad_sub r') = [35]"
      by (auto simp: take_Suc_conv_app_nth split: list.splits) 
    from h have "take 1 r' = [35]" by (rule comment_pad_sub_head_hash)
    then obtain r'' where "r' = 35 # r''" by (cases r') auto
    with Cons y have "pad_match r = Some r''" by (simp add: pad_match_def)
    with n show False by simp
  qed
qed

lemma comment_pad_sub_no_padding: "\<not> sublist [32, 32, 35] (comment_pad_sub s)"
proof (induction s rule: comment_pad_sub.induct)
  case 1
  then show ?case by simp
next
  case (2 x r)
  show ?case
  proof (cases "pad_match (x # r)")
    case (Some t)
    with 2 show ?thesis by (simp add: sublist_Cons_right)
  next
    case None
    have "\<not> prefix [32, 32, 35] (x # comment_pad_sub r)"
    proof
      assume "prefix [32, 32, 35] (x # comment_pad_sub r)"
      then have x: "x = 32" and "prefix [32, 35] (comment_pad_sub r)" by auto
      then have "take 2 (comment_pad_sub r) = [32, 35]"
        by (auto simp: prefix_def)
      then have "pad_match r \<noteq> None" by (rule comment_pad_sub_head_pad)
      then obtain t where "pad_match r = Some t" by auto
      with x have "pad_match (x # r) = Some t" by (simp add: pad_match_Cons_space)
      with None show False by simp
    qed
    with 2 None show ?thesis by (simp add: sublist_Cons_right)
  qed
qed

lemma sublist_append_sep:
  assumes "sublist p (x @ c # y)" "c \<notin> set p"
  shows "sublist p x \<or> sublist p y"
proof -
  from assms(1) obtain ps ss where e: "x @ c # y = ps @ p @ ss" by (auto simp: sublist_def)
  then consider (a) us where "x = ps @ us" "us @ c # y = p @ ss"
    | (b) us where "x @ us = ps" "c # y = us @ p @ ss"
    by (auto simp: append_eq_append_conv2)
  then show ?thesis
  proof cases
    case a
    from a(2) consider (a1) vs where "us = p @ vs" | (a2) vs where "us @ vs = p" "c # y = vs @ ss"
      by (auto simp: append_eq_append_conv2)
    then show ?thesis
    proof cases
      case a1
      with a(1) show ?thesis by (auto simp: sublist_def)
    next
      case a2
      show ?thesis
      proof (cases vs)
        case Nil
        with a2 a(1) have "x = ps @ p @ []" by simp
        then show ?thesis unfolding sublist_def by blast
      next
        case (Cons v vs')
        with a2 have "c \<in> set p" by auto
        with assms(2) show ?thesis by simp
      qed
    qed
  next
    case b
    show ?thesis
    proof (cases us)
      case Nil
      with b(2) assms(2) show ?thesis by (cases p) (auto simp: sublist_def)
    next
      case (Cons u us')
      with b(2) have "y = us' @ p @ ss" by simp
      then show ?thesis unfolding sublist_def by blast
    qed
  qed
qed

lemma sublist_join_newline:
  "sublist p (join [c] ls) \<Longrightarrow> p \<noteq> [] \<Longrightarrow> c \<notin> set p \<Longrightarrow> \<exists>l \<in> set ls. sublist p l"
proof (induction "[c]" ls rule: join.induct)
  case 1
  then show ?case by simp
next
  case (2 x)
  then show ?case by simp
next
  case (3 x y ys)
  from "3.prems"(1) have "sublist p (x @ c # join [c] (y # ys))" by simp
  from sublist_append_sep [OF this "3.prems"(3)] show ?case
  proof
    assume "sublist p x"
    then show ?thesis by simp
  next
    assume "sublist p (join [c] (y # ys))"
    from "3.hyps" [OF this "3.prems"(2,3)] show ?thesis by auto
  qed
qed

lemma transform_lines_padded:
  "transform_lines yaml_load lines = Inr ls \<Longrightarrow> \<forall>l \<in> set ls. \<exists>l'. l = comment_pad_sub l'"
proof (induction lines arbitrary: ls)
  case Nil
  then show ?case by simp
next
  case (Cons line lines)
  then show ?case
    by (auto simp: transform_line_def split: sum.splits)
qed

lemma replicate_numeral: "replicate (numeral k) x = x # replicate (pred_numeral k) x"
  by (simp add: numeral_eq_Suc)

lemma pad_match_append:
  assumes "\<exists>y \<in> set r. y \<noteq> 32"
  shows "pad_match ((x # r) @ t) = map_option (\<lambda>u. u @ t) (pad_match (x # r))"
proof -
  from assms have "dropWhile (\<lambda>y. y = 32) (r @ t) = dropWhile (\<lambda>y. y = 32) r @ t"
    by (auto simp: dropWhile_append1)
  moreover from assms have "dropWhile (\<lambda>y. y = 32) r \<noteq> []" by auto
  ultimately show ?thesis
    by (cases "dropWhile (\<lambda>y. y = 32) r") (auto simp: pad_match_def)
qed

lemma pad_match_suffix:
  assumes "pad_match (x # r) = Some u"
  shows "\<exists>p. r = p @ u"
proof -
  let ?d = "dropWhile (\<lambda>y. y = 32) r"
  from assms have "(case ?d of [] \<Rightarrow> None | h # t \<Rightarrow> if h = 35 then Some t else None) = Some u"
    by (simp add: pad_match_def split: if_splits)
  then obtain h where "?d = h # u"
    by (cases ?d) (simp_all split: if_splits)
  then have "r = (takeWhile (\<lambda>y. y = 32) r @ [h]) @ u"
    by (metis append.assoc append_Cons append_Nil takeWhile_dropWhile_id)
  then show ?thesis by blast
qed

lemma comment_pad_sub_append:
  "a = [] \<or> last a \<noteq> 32 \<Longrightarrow> comment_pad_sub (a @ t) = comment_pad_sub a @ comment_pad_sub t"
proof (induction a rule: comment_pad_sub.induct)
  case 1
  then show ?case by simp
next
  case (2 x r)
  from "2.prems" have l: "last (x # r) \<noteq> 32" by simp
  show ?case
  proof (cases "r = []")
    case True
    with l have "x \<noteq> 32" by simp
    with True show ?thesis by (simp add: pad_match_def)
  next
    case False
    with l have lr: "last r \<noteq> 32" by simp
    with False have ex: "\<exists>y \<in> set r. y \<noteq> 32" using last_in_set by blast
    note pm = pad_match_append [OF ex, of x t]
    show ?thesis
    proof (cases "pad_match (x # r)")
      case None
      with pm have "pad_match ((x # r) @ t) = None" by simp
      then have "comment_pad_sub ((x # r) @ t) = x # comment_pad_sub (r @ t)" by simp
      also from "2.IH"(1) [OF None] lr have "\<dots> = x # comment_pad_sub r @ comment_pad_sub t"
        by simp
      also from None have "\<dots> = comment_pad_sub (x # r) @ comment_pad_sub t" by simp
      finally show ?thesis .
    next
      case (Some u)
      with pm have "pad_match ((x # r) @ t) = Some (u @ t)" by simp
      then have "comment_pad_sub ((x # r) @ t) = 32 # 35 # comment_pad_sub (u @ t)" by simp
      moreover have "u = [] \<or> last u \<noteq> 32"
      proof (cases "u = []")
        case True
        then show ?thesis by simp
      next
        case False
        from pad_match_suffix [OF Some] obtain p where "r = p @ u" by blast
        with False lr show ?thesis by simp
      qed
      from "2.IH"(2) [OF Some this]
      have "comment_pad_sub (u @ t) = comment_pad_sub u @ comment_pad_sub t" .
      moreover from Some have "comment_pad_sub (x # r) = 32 # 35 # comment_pad_sub u" by simp
      ultimately show ?thesis by simp
    qed
  qed
qed

text \<open>
  Claim C9. The transform collapses every run of spaces that stands before a hash to one
  space: a run of one or more spaces followed by \<^verbatim>\<open>#\<close>, after a text that does not end
  with a space, comes out as one space and the hash. So no line of the output, and no
  output of \<open>transform\<close>, holds two spaces directly before a hash.
\<close>

theorem comment_padding_collapsed:
  "((a = [] \<or> last a \<noteq> 32) \<longrightarrow>
      comment_pad_sub (a @ replicate (Suc n) 32 @ 35 # b)
        = comment_pad_sub a @ 32 # 35 # comment_pad_sub b)
   \<and> \<not> sublist [32, 32, 35] (comment_pad_sub s)
   \<and> (transform_line yaml_load line = Inr l \<longrightarrow> \<not> sublist [32, 32, 35] l)
   \<and> (transform yaml_load text = Inr out \<longrightarrow> \<not> sublist [32, 32, 35] out)"
proof (intro conjI impI)
  assume "a = [] \<or> last a \<noteq> 32"
  then show "comment_pad_sub (a @ replicate (Suc n) 32 @ 35 # b)
        = comment_pad_sub a @ 32 # 35 # comment_pad_sub b"
    by (simp only: comment_pad_sub_append comment_pad_sub_run)
next
  show "\<not> sublist [32, 32, 35] (comment_pad_sub s)" by (rule comment_pad_sub_no_padding)
next
  assume "transform_line yaml_load line = Inr l"
  then obtain l' where "l = comment_pad_sub l'"
    by (auto simp: transform_line_def split: sum.splits)
  then show "\<not> sublist [32, 32, 35] l" by (simp add: comment_pad_sub_no_padding)
next
  assume "transform yaml_load text = Inr out"
  then obtain ls where ls: "transform_lines yaml_load (splitlines text) = Inr ls"
    and out: "out = join [10] ls"
    by (auto simp: transform_def split: sum.splits)
  show "\<not> sublist [32, 32, 35] out"
  proof
    assume "sublist [32, 32, 35] out"
    with out have "sublist [32, 32, 35] (join [10] ls)" by simp
    from sublist_join_newline [OF this] obtain l where l: "l \<in> set ls" "sublist [32, 32, 35] l"
      by auto
    from transform_lines_padded [OF ls] l(1) obtain l' where "l = comment_pad_sub l'"
      by auto
    with l(2) comment_pad_sub_no_padding [of l'] show False by simp
  qed
qed

theorem comment_padding_collapsed_witness:
  "comment_pad_sub ([88] @ replicate (Suc 2) 32 @ 35 # [32, 65]) = [88, 32, 35, 32, 65]
   \<and> transform_line (\<lambda>s. if s = [65] then Inr (YStr [65]) else Inl YAMLError)
        [32, 32, 65, 58, 32, 88, 32, 32, 32, 35, 32, 65]
       = Inr [32, 32, 34, 92, 117, 48, 48, 52, 49, 34, 58, 32, 88, 32, 35, 32, 65]
   \<and> \<not> sublist [32, 32, 35 :: nat] [32, 32, 34, 92, 117, 48, 48, 52, 49, 34, 58, 32, 88, 32, 35, 32, 65]
   \<and> transform (\<lambda>s. if s = [65] then Inr (YStr [65]) else Inl YAMLError)
        [35, 32, 32, 32, 35, 10, 88, 32, 32, 35] = Inr [35, 32, 35, 10, 88, 32, 35]
   \<and> \<not> sublist [32, 32, 35 :: nat] [35, 32, 35, 10, 88, 32, 35]"
proof -
  let ?load = "(\<lambda>s. if s = [65] then Inr (YStr [65]) else Inl YAMLError) :: pystr \<Rightarrow> py_error + yaml_value"
  let ?line = "[32, 32, 65, 58, 32, 88, 32, 32, 32, 35, 32, 65] :: pystr"
  let ?l = "[32, 32, 34, 92, 117, 48, 48, 52, 49, 34, 58, 32, 88, 32, 35, 32, 65] :: pystr"
  let ?text = "[35, 32, 32, 32, 35, 10, 88, 32, 32, 35] :: pystr"
  let ?out = "[35, 32, 35, 10, 88, 32, 35] :: pystr"
  note inst = comment_padding_collapsed [of "[88]" 2 "[32, 65]" "[]" ?load ?line ?l ?text ?out]
  have h1: "[88] = [] \<or> last [88] \<noteq> (32 :: nat)" by simp
  have h2: "transform_line ?load ?line = Inr ?l"
    by (simp add: transform_line_def key_sub_def key_match_def dot_plus_def escape_key_def
        format_04X_def hex.simps hex_digit_def pad_match_def replicate_numeral)
  have h3: "transform ?load ?text = Inr ?out"
    by (simp add: transform_def transform_line_def key_sub_def is_boundary_def pad_match_def)
  from inst [THEN conjunct1, THEN mp, OF h1]
  have "comment_pad_sub ([88] @ replicate (Suc 2) 32 @ 35 # [32, 65]) = [88, 32, 35, 32, 65]"
    by (simp add: pad_match_def)
  moreover note h2
  moreover from inst [THEN conjunct2, THEN conjunct2, THEN conjunct1, THEN mp, OF h2]
  have "\<not> sublist [32, 32, 35] ?l" .
  moreover note h3
  moreover from inst [THEN conjunct2, THEN conjunct2, THEN conjunct2, THEN mp, OF h3]
  have "\<not> sublist [32, 32, 35] ?out" .
  ultimately show ?thesis by (intro conjI)
qed

section \<open>Escaped keys\<close>

lemma find_rev_upt:
  "1 \<le> n \<Longrightarrow> n \<le> m \<Longrightarrow> P n \<Longrightarrow> (\<And>k. n < k \<Longrightarrow> k \<le> m \<Longrightarrow> \<not> P k) \<Longrightarrow>
     find P (rev [1 ..< Suc m]) = Some n"
proof (induction m)
  case 0
  then show ?case by simp
next
  case (Suc m)
  show ?case
  proof (cases "n = Suc m")
    case True
    with Suc.prems show ?thesis by simp
  next
    case False
    with Suc.prems have "n \<le> m" by simp
    moreover from Suc.prems False have "\<not> P (Suc m)" by simp
    ultimately show ?thesis using Suc by simp
  qed
qed

lemma find_rev_upt_none:
  "(\<And>k. 1 \<le> k \<Longrightarrow> k \<le> m \<Longrightarrow> \<not> P k) \<Longrightarrow> find P (rev [1 ..< Suc m]) = None"
  by (induction m) auto

lemma dot_plus_last:
  assumes "10 \<notin> set s" "1 \<le> n" "n \<le> length s" "rest (drop n s)"
    "\<And>k. n < k \<Longrightarrow> k \<le> length s \<Longrightarrow> \<not> rest (drop k s)"
  shows "dot_plus s rest = Some n"
proof -
  from assms(1) have t: "takeWhile (\<lambda>x. x \<noteq> 10) s = s"
    by (auto simp: takeWhile_eq_all_conv)
  have "find (\<lambda>n. rest (drop n s)) (rev [1 ..< Suc (length s)]) = Some n"
    using assms(2-) by (rule find_rev_upt)
  then show ?thesis
    unfolding dot_plus_def by (simp only: t)
qed

lemma dot_plus_none:
  assumes "\<And>k. 1 \<le> k \<Longrightarrow> k \<le> length s \<Longrightarrow> \<not> rest (drop k s)"
  shows "dot_plus s rest = None"
proof -
  have l: "length (takeWhile (\<lambda>x. x \<noteq> 10) s) \<le> length s" by (rule length_takeWhile_le)
  have "find (\<lambda>n. rest (drop n s)) (rev [1 ..< Suc (length (takeWhile (\<lambda>x. x \<noteq> 10) s))]) = None"
  proof (rule find_rev_upt_none)
    fix k assume "1 \<le> k" "k \<le> length (takeWhile (\<lambda>x. x \<noteq> 10) s)"
    with l have "1 \<le> k" "k \<le> length s" by simp_all
    then show "\<not> rest (drop k s)" by (rule assms)
  qed
  then show ?thesis unfolding dot_plus_def .
qed

lemma key_match_plain:
  assumes "k \<noteq> []" "hd k \<noteq> 34" "hd k \<noteq> 39" "58 \<notin> set rest" "10 \<notin> set k" "10 \<notin> set rest"
  shows "key_match (k @ 58 # rest) = Some (length k)"
proof -
  from assms(1) obtain x k' where k: "k = x # k'" by (cases k) auto
  have "dot_plus (k @ 58 # rest) (\<lambda>t. take 1 t = [58]) = Some (length k)"
  proof (rule dot_plus_last)
    show "10 \<notin> set (k @ 58 # rest)" using assms(5,6) by simp
    show "1 \<le> length k" using k by simp
    show "length k \<le> length (k @ 58 # rest)" by simp
    show "take 1 (drop (length k) (k @ 58 # rest)) = [58]" by simp
  next
    fix j assume j: "length k < j" "j \<le> length (k @ 58 # rest)"
    define i where "i = j - Suc (length k)"
    with j(1) have "j = length k + Suc i" by simp
    then have d: "drop j (k @ 58 # rest) = drop i rest" by simp
    show "take 1 (drop j (k @ 58 # rest)) \<noteq> [58]"
    proof
      assume "take 1 (drop j (k @ 58 # rest)) = [58]"
      with d have "58 \<in> set (take 1 (drop i rest))" by simp
      then have "58 \<in> set rest" by (auto dest: in_set_takeD in_set_dropD)
      with assms(4) show False by simp
    qed
  qed
  with k assms(2,3) show ?thesis by (simp add: key_match_def)
qed

lemma key_match_quoted:
  assumes "q = 34 \<or> q = 39" "body \<noteq> []" "\<not> sublist [q, 58] rest" "10 \<notin> set body" "10 \<notin> set rest"
  shows "key_match ((q # body @ [q]) @ 58 # rest) = Some (length (q # body @ [q]))"
proof -
  let ?s = "body @ q # 58 # rest"
  from assms(1) have q: "q \<noteq> 58" "q \<noteq> 10" by auto
  have dp: "dot_plus ?s (\<lambda>t. take 2 t = [q, 58]) = Some (length body)"
  proof (rule dot_plus_last)
    show "10 \<notin> set ?s" using assms(4,5) q by simp
    show "1 \<le> length body" using assms(2) by (cases body) simp_all
    show "length body \<le> length ?s" by simp
    show "take 2 (drop (length body) ?s) = [q, 58]" by simp
  next
    fix j assume j: "length body < j" "j \<le> length ?s"
    define i where "i = j - Suc (length body)"
    with j(1) have "j = length body + Suc i" by simp
    then have d: "drop j ?s = drop i (58 # rest)" by simp
    show "take 2 (drop j ?s) \<noteq> [q, 58]"
    proof
      assume a: "take 2 (drop j ?s) = [q, 58]"
      show False
      proof (cases i)
        case 0
        from a [unfolded d] 0 q show False by simp
      next
        case (Suc i')
        with a [unfolded d] have t: "take 2 (drop i' rest) = [q, 58]" by simp
        have "rest = take i' rest @ take 2 (drop i' rest) @ drop 2 (drop i' rest)"
          by (simp only: append_take_drop_id)
        with t have "rest = take i' rest @ [q, 58] @ drop 2 (drop i' rest)" by simp
        moreover have "sublist [q, 58] (take i' rest @ [q, 58] @ drop 2 (drop i' rest))"
          by (rule sublist_appendI)
        ultimately have "sublist [q, 58] rest" by simp
        with assms(3) show False by simp
      qed
    qed
  qed
  have "key_match (q # ?s) = Some (length body + 2)"
    unfolding key_match_def using assms(1) dp by (simp del: append.simps)
  then show ?thesis by simp
qed

lemma hex_digit_range: "d < 16 \<Longrightarrow> (48 \<le> hex_digit d \<and> hex_digit d \<le> 57) \<or> (65 \<le> hex_digit d \<and> hex_digit d \<le> 70)"
  by (auto simp: hex_digit_def)

lemma hex_digit_value_inv: "d < 16 \<Longrightarrow> hex_digit_value (hex_digit d) = d"
  by (auto simp: hex_digit_def hex_digit_value_def)

lemma hex_value_snoc: "hex_value (ds @ [d]) = 16 * hex_value ds + hex_digit_value d"
  by (simp add: hex_value_def)

lemma hex_range: "\<forall>d \<in> set (hex n). (48 \<le> d \<and> d \<le> 57) \<or> (65 \<le> d \<and> d \<le> 70)"
proof (induction n rule: hex.induct)
  case (1 n)
  show ?case
  proof (cases "n < 16")
    case True
    then show ?thesis using hex_digit_range [of n] by (subst hex.simps) simp
  next
    case False
    with 1 hex_digit_range [of "n mod 16"] show ?thesis by (subst hex.simps) auto
  qed
qed

lemma hex_value_hex: "hex_value (hex n) = n"
proof (induction n rule: hex.induct)
  case (1 n)
  show ?case
  proof (cases "n < 16")
    case True
    then show ?thesis
      by (subst hex.simps) (simp add: hex_value_def hex_digit_value_inv)
  next
    case False
    with 1 have "hex_value (hex (n div 16)) = n div 16" by simp
    with False show ?thesis
      by (subst hex.simps) (simp add: hex_value_snoc hex_digit_value_inv)
  qed
qed

lemma hex_value_zeros: "hex_value (replicate k 48 @ ds) = hex_value ds"
  by (induction k) (simp_all add: hex_value_def hex_digit_value_def)

lemma format_04X_props:
  "4 \<le> length (format_04X c)"
  "\<forall>d \<in> set (format_04X c). (48 \<le> d \<and> d \<le> 57) \<or> (65 \<le> d \<and> d \<le> 70)"
  "hex_value (format_04X c) = c"
proof -
  show "4 \<le> length (format_04X c)" by (simp add: format_04X_def)
  show "\<forall>d \<in> set (format_04X c). (48 \<le> d \<and> d \<le> 57) \<or> (65 \<le> d \<and> d \<le> 70)"
    using hex_range [of c] by (auto simp: format_04X_def)
  show "hex_value (format_04X c) = c"
    by (simp add: format_04X_def hex_value_zeros hex_value_hex)
qed

lemma pad_match_no_hash: "35 \<notin> set r \<Longrightarrow> pad_match (x # r) = None"
proof -
  assume n: "35 \<notin> set r"
  show ?thesis
  proof (cases "dropWhile (\<lambda>y. y = 32) r")
    case Nil
    show ?thesis unfolding pad_match_def by (simp add: Nil)
  next
    case (Cons h t)
    have "h \<in> set (dropWhile (\<lambda>y. y = 32) r)" by (simp add: Cons)
    then have "h \<in> set r" by (rule set_dropWhileD)
    with n have "h \<noteq> 35" by auto
    then show ?thesis unfolding pad_match_def by (simp add: Cons)
  qed
qed

lemma comment_pad_sub_no_hash: "35 \<notin> set a \<Longrightarrow> comment_pad_sub a = a"
proof (induction a)
  case Nil
  then show ?case by simp
next
  case (Cons x r)
  then have "pad_match (x # r) = None" by (simp add: pad_match_no_hash)
  with Cons show ?case by simp
qed

lemma key_sub_escaped:
  assumes p: "pre = [45, 32] \<or> pre = [32, 32]"
    and m: "key_match (k @ 58 # rest) = Some (length k)"
    and l: "yaml_load k = Inr (YStr [c])"
  shows "key_sub yaml_load (pre @ k @ 58 # rest)
           = Inr (pre @ [34, 92, 117] @ format_04X c @ [34] @ 58 # rest)"
proof -
  let ?line = "pre @ k @ 58 # rest"
  from p have t: "take 2 ?line = pre" by auto
  from p have d: "drop 2 ?line = k @ 58 # rest" by auto
  from p have d': "drop (2 + length k) ?line = 58 # rest" by auto
  have tk: "take (length k) (k @ 58 # rest) = k" by simp
  have e: "escape_key yaml_load k = Inr ([34, 92, 117] @ format_04X c @ [34])"
    by (simp add: escape_key_def l)
  from p t have "take 2 ?line = [45, 32] \<or> take 2 ?line = [32, 32]" by simp
  then have "key_sub yaml_load ?line =
      (case key_match (drop 2 ?line) of
         None \<Rightarrow> Inr ?line
       | Some n \<Rightarrow>
           (case escape_key yaml_load (take n (drop 2 ?line)) of
              Inl e \<Rightarrow> Inl e
            | Inr key \<Rightarrow> Inr (take 2 ?line @ key @ drop (2 + n) ?line)))"
    unfolding key_sub_def by (rule if_P)
  also have "\<dots> = Inr (pre @ ([34, 92, 117] @ format_04X c @ [34]) @ 58 # rest)"
    unfolding d m option.case tk e sum.case t d' ..
  finally show ?thesis by simp
qed

text \<open>
  Where the greedy match stops at the colon of the key, the key is escaped. Take a line
  that starts with \<^verbatim>\<open>"- "\<close> or two spaces, then the text \<open>k\<close> of a key that \<^verbatim>\<open>yaml.load\<close> reads
  as the one-character string \<open>c\<close>, then a colon and the rest, where either \<open>k\<close> does not
  start with a quote and the rest holds no colon, or \<open>k\<close> is quoted and the rest nowhere
  holds that quote followed by a colon. The transform replaces \<open>k\<close> by \<^verbatim>\<open>"\u\<close>, the code
  point of \<open>c\<close> in upper-case hexadecimal digits padded with zeros to at least four, and
  \<^verbatim>\<open>"\<close>; the rest of the line is changed by the comment padding only.
\<close>

lemma key_line_escaped:
  assumes "pre = [45, 32] \<or> pre = [32, 32]"
    and "yaml_load k = Inr (YStr [c])"
    and "10 \<notin> set k" and "10 \<notin> set rest"
    and "(k \<noteq> [] \<and> hd k \<noteq> 34 \<and> hd k \<noteq> 39 \<and> 58 \<notin> set rest)
         \<or> (\<exists>q body. (q = 34 \<or> q = 39) \<and> body \<noteq> [] \<and> k = q # body @ [q] \<and> \<not> sublist [q, 58] rest)"
  shows "key_sub yaml_load (pre @ k @ 58 # rest)
           = Inr (pre @ [34, 92, 117] @ format_04X c @ [34] @ 58 # rest)
       \<and> transform_line yaml_load (pre @ k @ 58 # rest)
           = Inr (pre @ [34, 92, 117] @ format_04X c @ [34] @ 58 # comment_pad_sub rest)
       \<and> 4 \<le> length (format_04X c)
       \<and> (\<forall>d \<in> set (format_04X c). (48 \<le> d \<and> d \<le> 57) \<or> (65 \<le> d \<and> d \<le> 70))
       \<and> hex_value (format_04X c) = c"
proof -
  from assms(5) have m: "key_match (k @ 58 # rest) = Some (length k)"
  proof
    assume "k \<noteq> [] \<and> hd k \<noteq> 34 \<and> hd k \<noteq> 39 \<and> 58 \<notin> set rest"
    with assms(3,4) show ?thesis by (simp add: key_match_plain)
  next
    assume "\<exists>q body. (q = 34 \<or> q = 39) \<and> body \<noteq> [] \<and> k = q # body @ [q] \<and> \<not> sublist [q, 58] rest"
    then obtain q body where q: "q = 34 \<or> q = 39" "body \<noteq> []" "k = q # body @ [q]"
      "\<not> sublist [q, 58] rest" by blast
    from assms(3) q(3) have "10 \<notin> set body" by simp
    from key_match_quoted [OF q(1,2,4) this assms(4)] q(3) show ?thesis by simp
  qed
  let ?esc = "[34, 92, 117] @ format_04X c @ [34]"
  from key_sub_escaped [of pre k rest yaml_load c, OF assms(1) m assms(2)]
  have ks: "key_sub yaml_load (pre @ k @ 58 # rest) = Inr (pre @ ?esc @ 58 # rest)" by simp
  have nh: "35 \<notin> set (pre @ ?esc @ [58])"
    using assms(1) format_04X_props(2) [of c] by auto
  have "comment_pad_sub ((pre @ ?esc @ [58]) @ rest)
          = comment_pad_sub (pre @ ?esc @ [58]) @ comment_pad_sub rest"
    by (rule comment_pad_sub_append) simp
  also have "\<dots> = (pre @ ?esc @ [58]) @ comment_pad_sub rest"
    by (simp only: comment_pad_sub_no_hash [OF nh])
  finally have "comment_pad_sub (pre @ ?esc @ 58 # rest) = pre @ ?esc @ 58 # comment_pad_sub rest"
    by simp
  with ks have tl: "transform_line yaml_load (pre @ k @ 58 # rest)
           = Inr (pre @ ?esc @ 58 # comment_pad_sub rest)"
    by (simp add: transform_line_def)
  from ks tl format_04X_props [of c] show ?thesis by simp
qed

lemma key_line_escaped_example:
  "transform_line (\<lambda>s. if s = [39, 233, 39] then Inr (YStr [233]) else Inl YAMLError)
     ([45, 32] @ [39, 233, 39] @ 58 # [32, 69, 32, 32, 35, 32, 233])
     = Inr ([45, 32] @ [34, 92, 117, 48, 48, 69, 57, 34] @ 58 # [32, 69, 32, 35, 32, 233])
   \<and> key_sub (\<lambda>s. if s = [39, 233, 39] then Inr (YStr [233]) else Inl YAMLError)
     ([45, 32] @ [39, 233, 39] @ 58 # [32, 69, 32, 32, 35, 32, 233])
     = Inr ([45, 32] @ [34, 92, 117, 48, 48, 69, 57, 34] @ 58 # [32, 69, 32, 32, 35, 32, 233])
   \<and> hex_value (format_04X 233) = 233"
proof -
  let ?load = "(\<lambda>s. if s = [39, 233, 39] then Inr (YStr [233]) else Inl YAMLError)
      :: pystr \<Rightarrow> py_error + yaml_value"
  let ?pre = "[45, 32] :: pystr"
  let ?k = "[39, 233, 39] :: pystr"
  let ?rest = "[32, 69, 32, 32, 35, 32, 233] :: pystr"
  have h1: "?pre = [45, 32] \<or> ?pre = [32, 32]" by simp
  have h2: "?load ?k = Inr (YStr [233])" by simp
  have h3: "10 \<notin> set ?k" by simp
  have h4: "10 \<notin> set ?rest" by simp
  have ns: "\<not> sublist [39, 58] ?rest"
  proof
    assume "sublist [39, 58] ?rest"
    then have "set [39, 58] \<subseteq> set ?rest" by (rule set_mono_sublist)
    then show False by simp
  qed
  have "(39 = (34 :: nat) \<or> 39 = (39 :: nat)) \<and> [233] \<noteq> ([] :: pystr) \<and> ?k = 39 # [233] @ [39]
      \<and> \<not> sublist [39, 58] ?rest" using ns by simp
  then have "\<exists>q body. (q = 34 \<or> q = 39) \<and> body \<noteq> [] \<and> ?k = q # body @ [q] \<and> \<not> sublist [q, 58] ?rest"
    by blast
  then have h5: "(?k \<noteq> [] \<and> hd ?k \<noteq> 34 \<and> hd ?k \<noteq> 39 \<and> 58 \<notin> set ?rest)
         \<or> (\<exists>q body. (q = 34 \<or> q = 39) \<and> body \<noteq> [] \<and> ?k = q # body @ [q] \<and> \<not> sublist [q, 58] ?rest)"
    by (rule disjI2)
  note r = key_line_escaped [of ?pre ?load ?k 233 ?rest, OF h1 h2 h3 h4 h5]
  have f: "format_04X 233 = [48, 48, 69, 57]"
    by (simp add: format_04X_def hex.simps hex_digit_def replicate_numeral)
  have c: "comment_pad_sub ?rest = [32, 69, 32, 35, 32, 233]"
    by (simp add: pad_match_def)
  from r [THEN conjunct1] have a: "key_sub ?load (?pre @ ?k @ 58 # ?rest)
     = Inr (?pre @ [34, 92, 117, 48, 48, 69, 57, 34] @ 58 # ?rest)"
    unfolding f by simp
  from r [THEN conjunct2, THEN conjunct1] have b: "transform_line ?load (?pre @ ?k @ 58 # ?rest)
     = Inr (?pre @ [34, 92, 117, 48, 48, 69, 57, 34] @ 58 # [32, 69, 32, 35, 32, 233])"
    unfolding f c by simp
  from r have v: "hex_value (format_04X 233) = 233" by (elim conjE)
  from b a v show ?thesis by (intro conjI)
qed

text \<open>
  Claim C8: every key line is rewritten into the escape of the key's character. The code
  misses it on the line \<^verbatim>\<open>  A: x:y\<close>, which has the key \<^verbatim>\<open>A\<close> after two spaces and before a
  colon. The greedy \<^verbatim>\<open>.+\<close> runs to the last colon of the line, so group 1 is \<^verbatim>\<open>A: x\<close> (four
  characters) and not the key; \<^verbatim>\<open>yaml.load\<close> reads it as a mapping, \<^verbatim>\<open>ord\<close> raises TypeError,
  and \<open>transform\<close> ends with the exception: no escape is written. On the quoted line
  \<^verbatim>\<open>  'A': x:y\<close> the same pattern stops at the closing quote and the key is escaped.
\<close>

theorem key_line_not_escaped_before_second_colon:
  "key_match ([65] @ 58 # [32, 120, 58, 121]) = Some 4
   \<and> key_sub (\<lambda>s. if s = [65] then Inr (YStr [65]) else Inr YOther)
        ([32, 32] @ [65] @ 58 # [32, 120, 58, 121]) = Inl TypeError
   \<and> transform (\<lambda>s. if s = [65] then Inr (YStr [65]) else Inr YOther)
        ([32, 32] @ [65] @ 58 # [32, 120, 58, 121]) = Inl TypeError
   \<and> key_sub (\<lambda>s. if s = [39, 65, 39] then Inr (YStr [65]) else Inr YOther)
        ([32, 32] @ [39, 65, 39] @ 58 # [32, 120, 58, 121])
       = Inr ([32, 32] @ [34, 92, 117, 48, 48, 52, 49, 34] @ 58 # [32, 120, 58, 121])"
  by (simp add: transform_def transform_line_def is_boundary_def key_sub_def key_match_def
      dot_plus_def escape_key_def format_04X_def hex.simps hex_digit_def replicate_numeral)

section \<open>Block membership\<close>

lemma codepoint_to_block_append:
  "\<forall>p \<in> set pre. \<not> in_block k p \<Longrightarrow>
     codepoint_to_block k (pre @ rest) = codepoint_to_block k rest"
  by (induction pre) (auto simp: in_block_def)

lemma codepoint_to_block_in: "codepoint_to_block c blocks = Inr b \<Longrightarrow> in_block c b \<and> b \<in> set blocks"
  by (drule codepoint_to_block_found) auto

lemma same_block:
  assumes "blocks_sorted blocks" "codepoint_to_block c blocks = Inr b" "in_block k b"
  shows "codepoint_to_block k blocks = Inr b"
proof -
  from codepoint_to_block_found [OF assms(2)] obtain pre post where
    bl: "blocks = pre @ b # post" by blast
  with assms(1) have "\<forall>p \<in> set pre. block_end p < block_start b"
    by (auto simp: blocks_sorted_def sorted_wrt_append)
  with assms(3) have "\<forall>p \<in> set pre. \<not> in_block k p"
    by (auto simp: in_block_def)
  then have "codepoint_to_block k blocks = codepoint_to_block k (b # post)"
    unfolding bl by (rule codepoint_to_block_append)
  with assms(3) show ?thesis by (simp add: in_block_def)
qed

lemma first_key_ins:
  "first_key (ins c g) = Inr k' \<Longrightarrow> k' = c \<or> first_key g = Inr k'"
  by (cases g) (auto simp: ins_def insert_at_def split: if_splits)

lemma first_key_mem: "first_key g = Inr k \<Longrightarrow> k \<in> fst ` set g"
  by (cases g) auto

lemma first_key_filter:
  "first_key (filter P g) = Inr k \<Longrightarrow> k \<in> fst ` set g \<and> (\<exists>k0. first_key g = Inr k0)"
proof -
  assume a: "first_key (filter P g) = Inr k"
  then have "k \<in> fst ` set (filter P g)" by (rule first_key_mem)
  then have "k \<in> fst ` set g" by auto
  moreover from a have "g \<noteq> []" by (cases g) auto
  then have "\<exists>k0. first_key g = Inr k0" by (cases g) auto
  ultimately show ?thesis by simp
qed

lemma block_membership_append:
  "block_membership blocks (xs @ ys) \<longleftrightarrow> block_membership blocks xs \<and> block_membership blocks ys"
  unfolding block_membership_def by (simp only: set_append ball_Un)

lemma block_membership_Cons:
  "block_membership blocks (g # xs) \<longleftrightarrow> block_membership blocks [g] \<and> block_membership blocks xs"
  using block_membership_append [of blocks "[g]" xs] by simp

lemma block_membership_insert_at:
  "block_membership blocks (insert_at i g xs) \<longleftrightarrow> block_membership blocks [g] \<and> block_membership blocks xs"
proof -
  have "block_membership blocks (take i xs @ drop i xs) = block_membership blocks xs" by simp
  then show ?thesis
    unfolding insert_at_def block_membership_append block_membership_Cons [of blocks g "drop i xs"]
    by blast
qed

lemma block_membership_remove:
  assumes "block_membership blocks cps"
  shows "block_membership blocks (remove_unused_codepoints cps used)"
  unfolding block_membership_def remove_unused_codepoints_filter
proof (intro ballI allI impI)
  fix g' k c
  assume g': "g' \<in> set (map (filter (\<lambda>kv. fst kv \<in> set used)) cps)"
    and k: "first_key g' = Inr k" and c: "c \<in> fst ` set g'"
  from g' obtain g where g: "g \<in> set cps" "g' = filter (\<lambda>kv. fst kv \<in> set used) g" by auto
  from k g(2) first_key_filter obtain k0 where k0: "first_key g = Inr k0" and kg: "k \<in> fst ` set g"
    by blast
  from c g(2) have cg: "c \<in> fst ` set g" by auto
  from assms g(1) k0 cg kg
  have "codepoint_to_block c blocks = codepoint_to_block k0 blocks"
    "codepoint_to_block k blocks = codepoint_to_block k0 blocks"
    unfolding block_membership_def by blast+
  then show "codepoint_to_block c blocks = codepoint_to_block k blocks" by simp
qed

lemma block_membership_step:
  assumes s: "blocks_sorted blocks" and m: "block_membership blocks cps"
    and a: "add_placeholder cps blocks c = (cps', None)"
  shows "block_membership blocks cps'"
proof -
  from add_placeholder_ok [OF a] obtain b where b: "codepoint_to_block c blocks = Inr b"
    and cases: "(\<exists>pre g post k. cps = pre @ g # post \<and> first_key g = Inr k \<and> in_block k b
          \<and> (\<forall>h \<in> set pre. scanned b h) \<and> cps' = pre @ ins c g # post)
      \<or> ((\<forall>h \<in> set cps. scanned b h) \<and> cps' = insert_at (new_pos b cps) [(c, Name [])] cps)"
    by blast
  from cases show ?thesis
  proof
    assume "\<exists>pre g post k. cps = pre @ g # post \<and> first_key g = Inr k \<and> in_block k b
          \<and> (\<forall>h \<in> set pre. scanned b h) \<and> cps' = pre @ ins c g # post"
    then obtain pre g post k where d: "cps = pre @ g # post" "first_key g = Inr k" "in_block k b"
      "cps' = pre @ ins c g # post" by blast
    from same_block [OF s b d(3)] have kb: "codepoint_to_block k blocks = Inr b" .
    from m d(1,2) kb have old: "\<forall>x \<in> fst ` set g. codepoint_to_block x blocks = Inr b"
      unfolding block_membership_def by auto
    with b have all: "\<forall>x \<in> fst ` set (ins c g). codepoint_to_block x blocks = Inr b"
      by simp
    have "\<forall>k'. first_key (ins c g) = Inr k' \<longrightarrow>
        (\<forall>x \<in> fst ` set (ins c g). codepoint_to_block x blocks = codepoint_to_block k' blocks)"
    proof (intro allI impI)
      fix k' assume "first_key (ins c g) = Inr k'"
      then have "k' \<in> fst ` set (ins c g)" by (rule first_key_mem)
      with all have "codepoint_to_block k' blocks = Inr b" by blast
      with all show "\<forall>x \<in> fst ` set (ins c g). codepoint_to_block x blocks = codepoint_to_block k' blocks"
        by simp
    qed
    then have new: "block_membership blocks [ins c g]"
      unfolding block_membership_def by simp
    from m d(1) have "block_membership blocks pre" "block_membership blocks post"
      by (simp_all add: block_membership_append block_membership_Cons [of blocks g post])
    with new show ?thesis
      unfolding d(4) by (simp add: block_membership_append block_membership_Cons [of blocks "ins c g" post])
  next
    assume "(\<forall>h \<in> set cps. scanned b h) \<and> cps' = insert_at (new_pos b cps) [(c, Name [])] cps"
    moreover have "block_membership blocks [[(c, Name [])]]"
      unfolding block_membership_def by simp
    ultimately show ?thesis using m by (simp add: block_membership_insert_at)
  qed
qed

lemma block_membership_add_new:
  "blocks_sorted blocks \<Longrightarrow> block_membership blocks cps \<Longrightarrow>
     block_membership blocks (fst (add_new_codepoint_placeholders cps blocks used))"
proof (induction used arbitrary: cps)
  case Nil
  then show ?case by simp
next
  case (Cons c used)
  obtain cps' r where step: "add_placeholder cps blocks c = (cps', r)"
    by (cases "add_placeholder cps blocks c")
  show ?case
  proof (cases r)
    case None
    with step Cons.prems have "block_membership blocks cps'"
      by (auto intro: block_membership_step)
    with Cons.IH [OF Cons.prems(1) this] step None show ?thesis by simp
  next
    case (Some e)
    with step add_new_error_state [of cps blocks c cps' e] Cons.prems show ?thesis by simp
  qed
qed

text \<open>
  Claim C4. Let the block table be sorted and non-overlapping, and let block membership
  hold in the registry. Then it holds after the reconciliation: in every group,
  \<open>codepoint_to_block\<close> of every codepoint equals \<open>codepoint_to_block\<close> of the first key.
  When the table also covers every used codepoint, that common value is a block, and its
  range holds the codepoint and the first key.
\<close>

theorem block_membership_preserved:
  assumes "blocks_sorted blocks" and "block_membership blocks cps"
  shows "block_membership blocks (fst (reconcile cps blocks used))
    \<and> ((\<forall>c \<in> set used. \<exists>b \<in> set blocks. in_block c b) \<longrightarrow>
         (\<forall>g \<in> set (fst (reconcile cps blocks used)). \<forall>c \<in> fst ` set g.
            \<exists>b. codepoint_to_block c blocks = Inr b \<and> in_block c b \<and>
              (\<forall>k. first_key g = Inr k \<longrightarrow> codepoint_to_block k blocks = Inr b \<and> in_block k b)))"
proof (rule conjI)
  let ?r = "fst (reconcile cps blocks used)"
  from assms have m: "block_membership blocks ?r"
    unfolding reconcile_def
    by (intro block_membership_add_new block_membership_remove)
  then show "block_membership blocks ?r" .
  show "(\<forall>c \<in> set used. \<exists>b \<in> set blocks. in_block c b) \<longrightarrow>
         (\<forall>g \<in> set ?r. \<forall>c \<in> fst ` set g.
            \<exists>b. codepoint_to_block c blocks = Inr b \<and> in_block c b \<and>
              (\<forall>k. first_key g = Inr k \<longrightarrow> codepoint_to_block k blocks = Inr b \<and> in_block k b))"
  proof (intro impI ballI)
    fix g c
    assume cov: "\<forall>c \<in> set used. \<exists>b \<in> set blocks. in_block c b"
      and g: "g \<in> set ?r" and c: "c \<in> fst ` set g"
    have "all_keys ?r \<subseteq> all_keys (remove_unused_codepoints cps used) \<union> set used"
      unfolding reconcile_def by (rule all_keys_add_new_sub)
    then have sub: "all_keys ?r \<subseteq> set used" by (auto simp: all_keys_remove)
    from g c have "c \<in> all_keys ?r" unfolding all_keys_def by blast
    with sub cov have "\<exists>b \<in> set blocks. in_block c b" by blast
    then obtain b where b: "codepoint_to_block c blocks = Inr b"
      using codepoint_to_block_some by blast
    then have cb: "in_block c b" by (simp add: codepoint_to_block_in)
    have "codepoint_to_block k blocks = Inr b \<and> in_block k b" if k: "first_key g = Inr k" for k
    proof -
      from m g k c have "codepoint_to_block c blocks = codepoint_to_block k blocks"
        unfolding block_membership_def by blast
      with b have "codepoint_to_block k blocks = Inr b" by simp
      then show ?thesis by (simp add: codepoint_to_block_in)
    qed
    with b cb show "\<exists>b. codepoint_to_block c blocks = Inr b \<and> in_block c b \<and>
              (\<forall>k. first_key g = Inr k \<longrightarrow> codepoint_to_block k blocks = Inr b \<and> in_block k b)"
      by blast
  qed
qed

theorem block_membership_preserved_witness:
  "reconcile [[(65, Name (lit ''A'')), (67, Name (lit ''C''))]]
       [\<lparr>block_start = 65, block_end = 90, block_name = lit ''upper''\<rparr>,
        \<lparr>block_start = 97, block_end = 122, block_name = lit ''lower''\<rparr>] [65, 66, 97]
     = ([[(65, Name (lit ''A'')), (66, Name [])], [(97, Name [])]], None)
   \<and> block_membership
       [\<lparr>block_start = 65, block_end = 90, block_name = lit ''upper''\<rparr>,
        \<lparr>block_start = 97, block_end = 122, block_name = lit ''lower''\<rparr>]
       [[(65, Name (lit ''A'')), (66, Name [])], [(97, Name [])]]"
proof -
  let ?blocks = "[\<lparr>block_start = 65, block_end = 90, block_name = lit ''upper''\<rparr>,
        \<lparr>block_start = 97, block_end = 122, block_name = lit ''lower''\<rparr>]"
  let ?cps = "[[(65, Name (lit ''A'')), (67, Name (lit ''C''))]] :: CodepointNamesRaw"
  have h1: "blocks_sorted ?blocks" by (simp add: blocks_sorted_def)
  have h2: "block_membership ?blocks ?cps" by (simp add: block_membership_def)
  have r: "reconcile ?cps ?blocks [65, 66, 97]
     = ([[(65, Name (lit ''A'')), (66, Name [])], [(97, Name [])]], None)"
    by (simp add: reconcile_def remove_unused_codepoints_def del_key_def add_placeholder_def
        find_block_def insert_placeholder_def gt_default_def insert_at_def compare_blocks_def)
  from block_membership_preserved [OF h1 h2, of "[65, 66, 97]", THEN conjunct1]
  have "block_membership ?blocks (fst (reconcile ?cps ?blocks [65, 66, 97]))" .
  with r show ?thesis by simp
qed

section \<open>Sortedness\<close>




















section \<open>Names are never overwritten\<close>

lemma all_entries_simps [simp]:
  "all_entries [] = {}"
  "all_entries (g # cps) = set g \<union> all_entries cps"
  "all_entries (xs @ ys) = all_entries xs \<union> all_entries ys"
  by (auto simp: all_entries_def)

lemma all_entries_insert_at [simp]: "all_entries (insert_at i g cps) = set g \<union> all_entries cps"
  by (auto simp: all_entries_def)

lemma all_entries_remove:
  "all_entries (remove_unused_codepoints cps used) = {kv \<in> all_entries cps. fst kv \<in> set used}"
  by (auto simp: all_entries_def remove_unused_codepoints_filter)

lemma all_keys_entries: "all_keys cps = fst ` all_entries cps"
  by (auto simp: all_keys_def all_entries_def)

lemma all_entries_step:
  assumes "add_placeholder cps blocks c = (cps', None)"
  shows "all_entries cps \<subseteq> all_entries cps' \<and> all_entries cps' \<subseteq> insert (c, Name []) (all_entries cps)"
proof -
  from add_placeholder_ok [OF assms] obtain b where
    "(\<exists>pre g post k. cps = pre @ g # post \<and> first_key g = Inr k \<and> in_block k b
          \<and> (\<forall>h \<in> set pre. scanned b h) \<and> cps' = pre @ ins c g # post)
      \<or> ((\<forall>h \<in> set cps. scanned b h) \<and> cps' = insert_at (new_pos b cps) [(c, Name [])] cps)"
    by blast
  then show ?thesis
  proof
    assume "\<exists>pre g post k. cps = pre @ g # post \<and> first_key g = Inr k \<and> in_block k b
          \<and> (\<forall>h \<in> set pre. scanned b h) \<and> cps' = pre @ ins c g # post"
    then obtain pre g post where "cps = pre @ g # post" "cps' = pre @ ins c g # post" by blast
    then show ?thesis by (auto simp: set_ins split: if_splits)
  next
    assume "(\<forall>h \<in> set cps. scanned b h) \<and> cps' = insert_at (new_pos b cps) [(c, Name [])] cps"
    then show ?thesis by auto
  qed
qed

lemma all_entries_add_new:
  "all_entries cps \<subseteq> all_entries (fst (add_new_codepoint_placeholders cps blocks used))
   \<and> all_entries (fst (add_new_codepoint_placeholders cps blocks used))
        \<subseteq> all_entries cps \<union> {(c, Name []) |c. c \<in> set used}"
proof (induction used arbitrary: cps)
  case Nil
  then show ?case by simp
next
  case (Cons c used)
  obtain cps' r where step: "add_placeholder cps blocks c = (cps', r)"
    by (cases "add_placeholder cps blocks c")
  show ?case
  proof (cases r)
    case None
    let ?r = "fst (add_new_codepoint_placeholders cps' blocks used)"
    from step None have eq: "fst (add_new_codepoint_placeholders cps blocks (c # used)) = ?r"
      by simp
    from all_entries_step [OF step [unfolded None]]
    have a: "all_entries cps \<subseteq> all_entries cps'"
      and b: "all_entries cps' \<subseteq> insert (c, Name []) (all_entries cps)" by simp_all
    from Cons.IH [of cps']
    have c: "all_entries cps' \<subseteq> all_entries ?r"
      and d: "all_entries ?r \<subseteq> all_entries cps' \<union> {(c, Name []) |c. c \<in> set used}" by simp_all
    from a c have "all_entries cps \<subseteq> all_entries ?r" by (rule subset_trans)
    moreover from b d have "all_entries ?r \<subseteq> all_entries cps \<union> {(x, Name []) |x. x \<in> set (c # used)}"
      by (simp only: set_simps) blast
    ultimately show ?thesis unfolding eq by simp
  next
    case (Some e)
    with step add_new_error_state [of cps blocks c cps' e] show ?thesis by auto
  qed
qed

lemma map_filter_append_list: "List.map_filter f (xs @ ys) = List.map_filter f xs @ List.map_filter f ys"
  by (simp add: List.map_filter_def)

lemma group_blocks_simps [simp]:
  "group_blocks blocks [] = []"
  "group_blocks blocks (g # cps) =
     (case group_block blocks g of None \<Rightarrow> group_blocks blocks cps | Some b \<Rightarrow> b # group_blocks blocks cps)"
  "group_blocks blocks (xs @ ys) = group_blocks blocks xs @ group_blocks blocks ys"
  by (simp_all add: group_blocks_def List.map_filter_def split: option.splits)

lemma group_blocks_mem:
  "b \<in> set (group_blocks blocks cps) \<longleftrightarrow> (\<exists>g \<in> set cps. group_block blocks g = Some b)"
  by (induction cps) (auto split: option.splits)

lemma group_blocks_insert_at:
  "group_blocks blocks (insert_at i g cps) =
     group_blocks blocks (take i cps) @ group_blocks blocks [g] @ group_blocks blocks (drop i cps)"
  unfolding insert_at_def by (simp split: option.splits)

lemma group_block_Some:
  "group_block blocks g = Some b \<longleftrightarrow> (\<exists>k. first_key g = Inr k \<and> codepoint_to_block k blocks = Inr b)"
  by (auto simp: group_block_def split: sum.splits)

lemma group_block_scanned: "scanned b h \<Longrightarrow> group_block blocks h \<noteq> Some b"
  by (auto simp: group_block_Some scanned_def dest: codepoint_to_block_in)

lemma group_block_found:
  assumes "blocks_sorted blocks" "codepoint_to_block c blocks = Inr b" "first_key g = Inr k" "in_block k b"
  shows "group_block blocks g = Some b"
  using same_block [OF assms(1,2,4)] assms(3) by (simp add: group_block_Some)

lemma group_block_ins:
  assumes "codepoint_to_block c blocks = Inr b" "group_block blocks g = Some b"
  shows "group_block blocks (ins c g) = Some b"
proof -
  from assms(2) obtain k where k: "first_key g = Inr k" "codepoint_to_block k blocks = Inr b"
    by (auto simp: group_block_Some)
  obtain k' where k': "first_key (ins c g) = Inr k'"
    by (cases "ins c g") (auto simp: first_key_Inr)
  from first_key_ins [OF k'] k assms(1) have "codepoint_to_block k' blocks = Inr b" by auto
  with k' show ?thesis by (auto simp: group_block_Some)
qed

lemma group_block_of_member:
  assumes "block_membership blocks cps" "h \<in> set cps" "c \<in> fst ` set h"
    "codepoint_to_block c blocks = Inr b"
  shows "group_block blocks h = Some b"
proof -
  from assms(3) have "h \<noteq> []" by auto
  then obtain k where k: "first_key h = Inr k" by (cases h) auto
  with assms(1,2,3) have "codepoint_to_block c blocks = codepoint_to_block k blocks"
    unfolding block_membership_def by blast
  with assms(4) k show ?thesis by (simp add: group_block_Some)
qed

text \<open>A round for a codepoint the registry already holds changes nothing.\<close>

lemma add_placeholder_present:
  assumes s: "blocks_sorted blocks" and m: "block_membership blocks cps"
    and o: "one_group_per_block blocks cps"
    and c: "c \<in> all_keys cps"
    and a: "add_placeholder cps blocks c = (cps', None)"
  shows "cps' = cps"
proof -
  from add_placeholder_ok [OF a] obtain b where b: "codepoint_to_block c blocks = Inr b"
    and cases: "(\<exists>pre g post k. cps = pre @ g # post \<and> first_key g = Inr k \<and> in_block k b
          \<and> (\<forall>h \<in> set pre. scanned b h) \<and> cps' = pre @ ins c g # post)
      \<or> ((\<forall>h \<in> set cps. scanned b h) \<and> cps' = insert_at (new_pos b cps) [(c, Name [])] cps)"
    by blast
  from c obtain h where h: "h \<in> set cps" "c \<in> fst ` set h" unfolding all_keys_def by blast
  from group_block_of_member [OF m h b] have hb: "group_block blocks h = Some b" .
  from cases show ?thesis
  proof
    assume "\<exists>pre g post k. cps = pre @ g # post \<and> first_key g = Inr k \<and> in_block k b
          \<and> (\<forall>h \<in> set pre. scanned b h) \<and> cps' = pre @ ins c g # post"
    then obtain pre g post k where d: "cps = pre @ g # post" "first_key g = Inr k" "in_block k b"
      "\<forall>h \<in> set pre. scanned b h" "cps' = pre @ ins c g # post" by blast
    from group_block_found [OF s b d(2,3)] have gb: "group_block blocks g = Some b" .
    from d(4) hb group_block_scanned have "h \<notin> set pre" by blast
    moreover have "h \<notin> set post"
    proof
      assume "h \<in> set post"
      with hb have "b \<in> set (group_blocks blocks post)" by (auto simp: group_blocks_mem)
      with o gb show False unfolding one_group_per_block_def d(1) by simp
    qed
    ultimately have "h = g" using h(1) d(1) by simp
    with h(2) have "ins c g = g" by (simp add: ins_def)
    with d(1,5) show ?thesis by simp
  next
    assume "(\<forall>h \<in> set cps. scanned b h) \<and> cps' = insert_at (new_pos b cps) [(c, Name [])] cps"
    with h(1) hb group_block_scanned show ?thesis by blast
  qed
qed

lemma group_block_filter:
  assumes "block_membership blocks cps" "g \<in> set cps"
  shows "group_block blocks (filter P g) = None \<or> group_block blocks (filter P g) = group_block blocks g"
proof (cases "first_key (filter P g)")
  case (Inl e)
  then show ?thesis by (simp add: group_block_def)
next
  case (Inr k)
  from first_key_filter [OF Inr] obtain k0 where k0: "first_key g = Inr k0" and kg: "k \<in> fst ` set g"
    by blast
  with assms have "codepoint_to_block k blocks = codepoint_to_block k0 blocks"
    unfolding block_membership_def by blast
  with Inr k0 show ?thesis by (simp add: group_block_def)
qed

lemma group_blocks_remove:
  "block_membership blocks cps \<Longrightarrow>
     set (group_blocks blocks (map (filter P) cps)) \<subseteq> set (group_blocks blocks cps)
     \<and> (distinct (group_blocks blocks cps) \<longrightarrow> distinct (group_blocks blocks (map (filter P) cps)))"
proof (induction cps)
  case Nil
  then show ?case by simp
next
  case (Cons g cps)
  from Cons.prems have m: "block_membership blocks cps"
    by (simp add: block_membership_Cons [of blocks g cps])
  note ih = Cons.IH [OF m]
  from group_block_filter [OF Cons.prems, of g P]
  have "group_block blocks (filter P g) = None \<or> group_block blocks (filter P g) = group_block blocks g"
    by simp
  with ih show ?case by (auto split: option.splits)
qed

lemma one_group_remove:
  "block_membership blocks cps \<Longrightarrow> one_group_per_block blocks cps \<Longrightarrow>
     one_group_per_block blocks (remove_unused_codepoints cps used)"
  unfolding one_group_per_block_def remove_unused_codepoints_filter
  using group_blocks_remove [of blocks cps] by blast

lemma one_group_step:
  assumes s: "blocks_sorted blocks" and o: "one_group_per_block blocks cps"
    and a: "add_placeholder cps blocks c = (cps', None)"
  shows "one_group_per_block blocks cps'"
proof -
  from add_placeholder_ok [OF a] obtain b where b: "codepoint_to_block c blocks = Inr b"
    and cases: "(\<exists>pre g post k. cps = pre @ g # post \<and> first_key g = Inr k \<and> in_block k b
          \<and> (\<forall>h \<in> set pre. scanned b h) \<and> cps' = pre @ ins c g # post)
      \<or> ((\<forall>h \<in> set cps. scanned b h) \<and> cps' = insert_at (new_pos b cps) [(c, Name [])] cps)"
    by blast
  from cases show ?thesis
  proof
    assume "\<exists>pre g post k. cps = pre @ g # post \<and> first_key g = Inr k \<and> in_block k b
          \<and> (\<forall>h \<in> set pre. scanned b h) \<and> cps' = pre @ ins c g # post"
    then obtain pre g post k where d: "cps = pre @ g # post" "first_key g = Inr k" "in_block k b"
      "cps' = pre @ ins c g # post" by blast
    from group_block_found [OF s b d(2,3)] have gb: "group_block blocks g = Some b" .
    from group_block_ins [OF b gb] have "group_block blocks (ins c g) = Some b" .
    with gb have "group_blocks blocks cps' = group_blocks blocks cps"
      unfolding d(1,4) by simp
    with o show ?thesis by (simp add: one_group_per_block_def)
  next
    assume n: "(\<forall>h \<in> set cps. scanned b h) \<and> cps' = insert_at (new_pos b cps) [(c, Name [])] cps"
    let ?i = "new_pos b cps"
    from n group_block_scanned have nb: "b \<notin> set (group_blocks blocks cps)"
      by (auto simp: group_blocks_mem)
    have split: "group_blocks blocks cps = group_blocks blocks (take ?i cps) @ group_blocks blocks (drop ?i cps)"
      using group_blocks_simps(3) [of blocks "take ?i cps" "drop ?i cps"] by simp
    have new: "group_blocks blocks [[(c, Name [])]] = [b]"
      using b by (simp add: group_block_def)
    from o nb show ?thesis
      unfolding one_group_per_block_def n [THEN conjunct2] group_blocks_insert_at new
      unfolding split by auto
  qed
qed

text \<open>
  The registry of the specification: block membership, and at most one group for each
  block. Both are kept by the removal and by every round of the insertion.
\<close>

lemma entries_step_new:
  assumes s: "blocks_sorted blocks" and m: "block_membership blocks cps"
    and o: "one_group_per_block blocks cps"
    and a: "add_placeholder cps blocks c = (cps', None)"
  shows "all_entries cps' \<subseteq> all_entries cps \<union> {(x, Name []) |x. x = c \<and> c \<notin> all_keys cps}"
proof (cases "c \<in> all_keys cps")
  case True
  from add_placeholder_present [OF s m o True a] show ?thesis by simp
next
  case False
  with all_entries_step [OF a] show ?thesis by auto
qed

lemma entries_add_new:
  "blocks_sorted blocks \<Longrightarrow> block_membership blocks cps \<Longrightarrow> one_group_per_block blocks cps \<Longrightarrow>
     all_entries (fst (add_new_codepoint_placeholders cps blocks used))
       \<subseteq> all_entries cps \<union> {(c, Name []) |c. c \<in> set used \<and> c \<notin> all_keys cps}"
proof (induction used arbitrary: cps)
  case Nil
  then show ?case by simp
next
  case (Cons c used)
  obtain cps' r where step: "add_placeholder cps blocks c = (cps', r)"
    by (cases "add_placeholder cps blocks c")
  show ?case
  proof (cases r)
    case None
    let ?r = "fst (add_new_codepoint_placeholders cps' blocks used)"
    note a = step [unfolded None]
    from step None have eq: "fst (add_new_codepoint_placeholders cps blocks (c # used)) = ?r"
      by simp
    from block_membership_step [OF Cons.prems(1,2) a] have m': "block_membership blocks cps'" .
    from one_group_step [OF Cons.prems(1,3) a] have o': "one_group_per_block blocks cps'" .
    from Cons.IH [OF Cons.prems(1) m' o']
    have ih: "all_entries ?r \<subseteq> all_entries cps' \<union> {(x, Name []) |x. x \<in> set used \<and> x \<notin> all_keys cps'}" .
    from entries_step_new [OF Cons.prems a]
    have st: "all_entries cps' \<subseteq> all_entries cps \<union> {(x, Name []) |x. x = c \<and> c \<notin> all_keys cps}" .
    from all_keys_add_placeholder [of cps blocks c cps'] a have k: "all_keys cps \<subseteq> all_keys cps'"
      by auto
    from ih st k have "all_entries ?r \<subseteq> all_entries cps \<union> {(x, Name []) |x. x \<in> set (c # used) \<and> x \<notin> all_keys cps}"
      by (simp only: set_simps) blast
    then show ?thesis unfolding eq .
  next
    case (Some e)
    with step add_new_error_state [of cps blocks c cps' e] show ?thesis by auto
  qed
qed

text \<open>
  Claim C2. The reconciliation keeps every entry of a used codepoint as it is, and every
  entry of the registry it leaves is such an entry or a placeholder, the empty string, for
  a used codepoint; this also holds in the state an exception leaves. In a registry of the
  specification (sorted block table, block membership, at most one group for each block) a
  codepoint present before and used is mapped afterwards to exactly the value it had, and a
  placeholder is only inserted for a codepoint that was not present; when the
  reconciliation ends without an exception, every used codepoint that was not present has
  its placeholder.
\<close>

theorem names_never_overwritten:
  "{kv \<in> all_entries cps. fst kv \<in> set used} \<subseteq> all_entries (fst (reconcile cps blocks used))
   \<and> all_entries (fst (reconcile cps blocks used))
        \<subseteq> {kv \<in> all_entries cps. fst kv \<in> set used} \<union> {(c, Name []) |c. c \<in> set used}
   \<and> (blocks_sorted blocks \<and> block_membership blocks cps \<and> one_group_per_block blocks cps \<longrightarrow>
        (\<forall>c \<in> all_keys cps \<inter> set used. \<forall>v.
            (c, v) \<in> all_entries (fst (reconcile cps blocks used)) \<longleftrightarrow> (c, v) \<in> all_entries cps)
        \<and> all_entries (fst (reconcile cps blocks used))
             \<subseteq> {kv \<in> all_entries cps. fst kv \<in> set used}
                 \<union> {(c, Name []) |c. c \<in> set used \<and> c \<notin> all_keys cps}
        \<and> (snd (reconcile cps blocks used) = None \<longrightarrow>
             all_entries (fst (reconcile cps blocks used))
               = {kv \<in> all_entries cps. fst kv \<in> set used}
                   \<union> {(c, Name []) |c. c \<in> set used \<and> c \<notin> all_keys cps}))"
proof -
  let ?c0 = "remove_unused_codepoints cps used"
  let ?R = "fst (reconcile cps blocks used)"
  let ?kept = "{kv \<in> all_entries cps. fst kv \<in> set used}"
  have e0: "all_entries ?c0 = ?kept" by (rule all_entries_remove)
  have k0: "all_keys ?c0 = all_keys cps \<inter> set used" by (auto simp: all_keys_remove)
  from all_entries_add_new [of ?c0 blocks used]
  have lower: "?kept \<subseteq> all_entries ?R"
    and upper: "all_entries ?R \<subseteq> ?kept \<union> {(c, Name []) |c. c \<in> set used}"
    unfolding reconcile_def e0 by simp_all
  have inv: "(\<forall>c \<in> all_keys cps \<inter> set used. \<forall>v. (c, v) \<in> all_entries ?R \<longleftrightarrow> (c, v) \<in> all_entries cps)
        \<and> all_entries ?R \<subseteq> ?kept \<union> {(c, Name []) |c. c \<in> set used \<and> c \<notin> all_keys cps}
        \<and> (snd (reconcile cps blocks used) = None \<longrightarrow>
             all_entries ?R = ?kept \<union> {(c, Name []) |c. c \<in> set used \<and> c \<notin> all_keys cps})"
    if s: "blocks_sorted blocks" and m: "block_membership blocks cps"
      and o: "one_group_per_block blocks cps"
  proof -
    from m have m0: "block_membership blocks ?c0" by (rule block_membership_remove)
    from m o have o0: "one_group_per_block blocks ?c0" by (rule one_group_remove)
    from entries_add_new [OF s m0 o0, of used]
    have "all_entries ?R \<subseteq> ?kept \<union> {(c, Name []) |c. c \<in> set used \<and> c \<notin> all_keys cps \<inter> set used}"
      unfolding reconcile_def e0 k0 .
    then have up: "all_entries ?R \<subseteq> ?kept \<union> {(c, Name []) |c. c \<in> set used \<and> c \<notin> all_keys cps}"
      by blast
    have same: "\<forall>c \<in> all_keys cps \<inter> set used. \<forall>v. (c, v) \<in> all_entries ?R \<longleftrightarrow> (c, v) \<in> all_entries cps"
    proof (intro ballI allI iffI)
      fix c v assume c: "c \<in> all_keys cps \<inter> set used" and "(c, v) \<in> all_entries ?R"
      with up show "(c, v) \<in> all_entries cps" by auto
    next
      fix c v assume c: "c \<in> all_keys cps \<inter> set used" and "(c, v) \<in> all_entries cps"
      with lower show "(c, v) \<in> all_entries ?R" by auto
    qed
    have eq: "all_entries ?R = ?kept \<union> {(c, Name []) |c. c \<in> set used \<and> c \<notin> all_keys cps}"
      if ok: "snd (reconcile cps blocks used) = None"
    proof (rule equalityI [OF up], rule Un_least [OF lower], rule subsetI)
      fix kv assume "kv \<in> {(c, Name []) |c. c \<in> set used \<and> c \<notin> all_keys cps}"
      then obtain c where kv: "kv = (c, Name [])" and c: "c \<in> set used" "c \<notin> all_keys cps" by blast
      from ok all_keys_add_new_ok [of ?c0 blocks used]
      have "all_keys ?R = all_keys ?c0 \<union> set used" unfolding reconcile_def by simp
      with c(1) have "c \<in> all_keys ?R" by simp
      then obtain v where v: "(c, v) \<in> all_entries ?R" by (auto simp: all_keys_entries)
      from v up have "(c, v) \<in> ?kept \<or> (c, v) \<in> {(c, Name []) |c. c \<in> set used \<and> c \<notin> all_keys cps}"
        by blast
      moreover from c(2) have "(c, v) \<notin> ?kept" by (force simp: all_keys_entries)
      ultimately have "v = Name []" by blast
      with v kv show "kv \<in> all_entries ?R" by simp
    qed
    from same up eq show ?thesis by blast
  qed
  from lower upper inv show ?thesis by blast
qed

theorem names_never_overwritten_witness:
  "blocks_sorted [\<lparr>block_start = 65, block_end = 90, block_name = lit ''upper''\<rparr>,
        \<lparr>block_start = 97, block_end = 122, block_name = lit ''lower''\<rparr>]
   \<and> block_membership [\<lparr>block_start = 65, block_end = 90, block_name = lit ''upper''\<rparr>,
        \<lparr>block_start = 97, block_end = 122, block_name = lit ''lower''\<rparr>]
       [[(65, Name (lit ''A'')), (67, Name (lit ''C''))]]
   \<and> one_group_per_block [\<lparr>block_start = 65, block_end = 90, block_name = lit ''upper''\<rparr>,
        \<lparr>block_start = 97, block_end = 122, block_name = lit ''lower''\<rparr>]
       [[(65, Name (lit ''A'')), (67, Name (lit ''C''))]]
   \<and> reconcile [[(65, Name (lit ''A'')), (67, Name (lit ''C''))]]
       [\<lparr>block_start = 65, block_end = 90, block_name = lit ''upper''\<rparr>,
        \<lparr>block_start = 97, block_end = 122, block_name = lit ''lower''\<rparr>] [65, 66, 97]
     = ([[(65, Name (lit ''A'')), (66, Name [])], [(97, Name [])]], None)
   \<and> all_entries [[(65, Name (lit ''A'')), (66, Name [])], [(97, Name [])]]
     = {kv \<in> all_entries [[(65, Name (lit ''A'')), (67, Name (lit ''C''))]]. fst kv \<in> set [65, 66, 97]}
        \<union> {(c, Name []) |c. c \<in> set [65, 66, 97]
              \<and> c \<notin> all_keys [[(65, Name (lit ''A'')), (67, Name (lit ''C''))]]}"
proof -
  let ?blocks = "[\<lparr>block_start = 65, block_end = 90, block_name = lit ''upper''\<rparr>,
        \<lparr>block_start = 97, block_end = 122, block_name = lit ''lower''\<rparr>]"
  let ?cps = "[[(65, Name (lit ''A'')), (67, Name (lit ''C''))]] :: CodepointNamesRaw"
  have h1: "blocks_sorted ?blocks" by (simp add: blocks_sorted_def)
  have h2: "block_membership ?blocks ?cps" by (simp add: block_membership_def)
  have h3: "one_group_per_block ?blocks ?cps"
    by (simp add: one_group_per_block_def group_block_def)
  have r: "reconcile ?cps ?blocks [65, 66, 97]
     = ([[(65, Name (lit ''A'')), (66, Name [])], [(97, Name [])]], None)"
    by (simp add: reconcile_def remove_unused_codepoints_def del_key_def add_placeholder_def
        find_block_def insert_placeholder_def gt_default_def insert_at_def compare_blocks_def)
  then have ok: "snd (reconcile ?cps ?blocks [65, 66, 97]) = None" by simp
  from names_never_overwritten [of ?cps "[65, 66, 97]" ?blocks, THEN conjunct2, THEN conjunct2,
      THEN mp, OF conjI [OF h1 conjI [OF h2 h3]], THEN conjunct2, THEN conjunct2, THEN mp, OF ok]
  have "all_entries (fst (reconcile ?cps ?blocks [65, 66, 97]))
     = {kv \<in> all_entries ?cps. fst kv \<in> set [65, 66, 97]}
        \<union> {(c, Name []) |c. c \<in> set [65, 66, 97] \<and> c \<notin> all_keys ?cps}" .
  then have "all_entries [[(65, Name (lit ''A'')), (66, Name [])], [(97, Name [])]]
     = {kv \<in> all_entries ?cps. fst kv \<in> set [65, 66, 97]}
        \<union> {(c, Name []) |c. c \<in> set [65, 66, 97] \<and> c \<notin> all_keys ?cps}"
    unfolding r fst_conv .
  with h1 h2 h3 r show ?thesis by (intro conjI)
qed

section \<open>A second run\<close>







end
